theory Spec2Isabelle
  imports Main
begin

section \<open>The file system as the program observes it\<close>

text \<open>
  \<^verbatim>\<open>tree.cc\<close> reads the file system through five probes of \<^verbatim>\<open>std::filesystem\<close>, each
  taking the shared \<^verbatim>\<open>std::error_code &err\<close>: \<^verbatim>\<open>fs::is_directory\<close>, \<^verbatim>\<open>fs::is_symlink\<close>,
  \<^verbatim>\<open>fs::canonical\<close>, \<^verbatim>\<open>fs::directory_iterator\<close> and, on the root, \<^verbatim>\<open>fs::exists\<close>.
  A path is modelled by what these probes answer for it. An answer is \<open>Inr v\<close> when the
  probe succeeds with value \<open>v\<close> and \<open>Inl e\<close> when it fails with the errno value \<open>e\<close>.
  The listing of a directory is the list of its entries in the order the iterator yields
  them, so the model is the subtree below a path, unchanged during a run.

  Reading a directory can also fail after it was opened. The constructor of the iterator
  reports such a failure through the error code, so it is part of \<open>listing\<close>; the increment
  \<^verbatim>\<open>operator++\<close>, which \<^verbatim>\<open>std::count_if\<close> and the range-for loop use, has no error code and
  throws. \<^verbatim>\<open>traverse\<close> passes three times over a directory it has entered; \<open>read_failure\<close>
  tells for each pass whether the read that follows the last entry meets the end of the
  directory (\<open>None\<close>) or fails (\<open>Some e\<close>). The entries of \<open>listing\<close> are those delivered
  before that read, the same in the three passes.
\<close>

type_synonym errno = int

definition EACCES :: errno where
  "EACCES = 13"

definition ENOENT :: errno where
  "ENOENT = 2"

definition ENOTDIR :: errno where
  "ENOTDIR = 20"

datatype pass = Counting_directories | Counting_files | Walking

datatype entry = Entry
  (filename: string)
  (status: "errno + bool")
  (symlink_status: "errno + bool")
  (canonical_path_of: "errno + string")
  (listing: "errno + entry list")
  (read_failure: "pass \<Rightarrow> errno option")

text \<open>
  \<open>status\<close> is \<^verbatim>\<open>stat\<close> (it follows symlinks): \<open>Inr True\<close> when the path resolves to a
  directory. \<open>symlink_status\<close> is \<^verbatim>\<open>lstat\<close>: \<open>Inr True\<close> when the path itself is a symlink.
\<close>

section \<open>Program state\<close>

text \<open>
  The three globals of \<^verbatim>\<open>tree.cc\<close>, the error code that \<^verbatim>\<open>main\<close> owns and passes by
  reference to every probe, and the two output streams. \<^verbatim>\<open>std::size_t\<close> counters are
  natural numbers: every count is the length of a listing, and a total is a sum of such
  counts over directories that were visited. The streams hold the bytes handed to
  \<^verbatim>\<open>printf\<close> and \<^verbatim>\<open>fprintf\<close>, which are taken to accept every byte.

  \<open>terminated\<close> says that \<^verbatim>\<open>std::terminate\<close> was called: an exception left a function
  declared \<^verbatim>\<open>noexcept\<close>, as the two counters and \<^verbatim>\<open>traverse\<close> are. The process is then
  gone, and the code that would have run next is skipped.
\<close>

record state =
  max_depth :: int
  total_directories :: nat
  total_files :: nat
  err :: errno
  stdout :: string
  stderr :: string
  terminated :: bool

subsection \<open>The probes\<close>

text \<open>Every probe overwrites \<open>err\<close>: cleared on success, the errno on failure.\<close>

definition set_err :: "errno + 'a \<Rightarrow> state \<Rightarrow> state" where
  "set_err r s = s\<lparr>err := (case r of Inl e \<Rightarrow> e | Inr _ \<Rightarrow> 0)\<rparr>"

definition fs_is_directory :: "entry \<Rightarrow> state \<Rightarrow> bool \<times> state" where
  "fs_is_directory p s = ((case status p of Inl _ \<Rightarrow> False | Inr b \<Rightarrow> b), set_err (status p) s)"

definition fs_is_symlink :: "entry \<Rightarrow> state \<Rightarrow> bool \<times> state" where
  "fs_is_symlink p s =
     ((case symlink_status p of Inl _ \<Rightarrow> False | Inr b \<Rightarrow> b), set_err (symlink_status p) s)"

definition fs_canonical :: "entry \<Rightarrow> state \<Rightarrow> string \<times> state" where
  "fs_canonical p s =
     ((case canonical_path_of p of Inl _ \<Rightarrow> [] | Inr t \<Rightarrow> t), set_err (canonical_path_of p) s)"

text \<open>
  \<^verbatim>\<open>fs::directory_iterator(p, err)\<close>: the end iterator when the directory cannot be opened.
  An iterator is the list of the entries still to come, the first being the one it points
  to; the end iterator is the empty list.
\<close>

definition fs_directory_iterator :: "entry \<Rightarrow> state \<Rightarrow> entry list \<times> state" where
  "fs_directory_iterator p s =
     ((case listing p of Inl _ \<Rightarrow> [] | Inr es \<Rightarrow> es), set_err (listing p) s)"

text \<open>
  \<^verbatim>\<open>fs::exists(p, err)\<close>: false whenever \<^verbatim>\<open>stat\<close> fails; the error code is cleared when the
  failure only says that the path was not found.
\<close>

definition is_not_found_error :: "errno \<Rightarrow> bool" where
  "is_not_found_error e = (e = ENOENT \<or> e = ENOTDIR)"

definition fs_exists :: "entry \<Rightarrow> state \<Rightarrow> bool \<times> state" where
  "fs_exists p s =
     (case status p of
        Inl e \<Rightarrow> (False, s\<lparr>err := (if is_not_found_error e then 0 else e)\<rparr>)
      | Inr _ \<Rightarrow> (True, s\<lparr>err := 0\<rparr>))"

text \<open>
  \<^verbatim>\<open>operator++\<close> on an iterator whose entries still to come, after the one it points to,
  are \<open>rest\<close>. With entries left it steps to the next. After the last one it reads the
  directory once more: the read meets the end, or it fails and the failure is thrown as a
  \<^verbatim>\<open>filesystem_error\<close>. Every caller is \<^verbatim>\<open>noexcept\<close>, so a throw is \<^verbatim>\<open>std::terminate\<close>. The
  result says whether it threw.
\<close>

definition increment :: "entry list \<Rightarrow> errno option \<Rightarrow> state \<Rightarrow> bool \<times> state" where
  "increment rest failure s =
     (if rest = [] \<and> failure \<noteq> None then (True, s\<lparr>terminated := True\<rparr>) else (False, s))"

section \<open>Counter\<close>

text \<open>
  \<^verbatim>\<open>std::count_if\<close> over the range from an iterator to the end, with a predicate that
  writes the error code: \<^verbatim>\<open>for (; first != last; ++first) if (pred(*first)) ++n;\<close>.
  \<open>failure\<close> is what the read after the last entry gives in this pass. When the increment
  throws, the number returned is the value of the accumulator at that point.
\<close>

fun count_if ::
  "entry list \<Rightarrow> errno option \<Rightarrow> (entry \<Rightarrow> state \<Rightarrow> bool \<times> state) \<Rightarrow> state \<Rightarrow> nat \<times> state"
where
  "count_if [] failure pred s = (0, s)"
| "count_if (x # xs) failure pred s =
     (case pred x s of (b, s1) \<Rightarrow>
      case increment xs failure s1 of (thrown, s2) \<Rightarrow>
        if thrown then ((if b then Suc 0 else 0), s2)
        else (case count_if xs failure pred s2 of
                (n, s3) \<Rightarrow> ((if b then Suc n else n), s3)))"

definition number_of_directories_in_directory :: "entry \<Rightarrow> state \<Rightarrow> nat \<times> state" where
  "number_of_directories_in_directory directory s =
     (case fs_directory_iterator directory s of (first, s') \<Rightarrow>
        count_if first (read_failure directory Counting_directories)
          (\<lambda>path. fs_is_directory path) s')"

definition number_of_files_in_directory :: "entry \<Rightarrow> state \<Rightarrow> nat \<times> state" where
  "number_of_files_in_directory directory s =
     (case fs_directory_iterator directory s of (first, s') \<Rightarrow>
        count_if first (read_failure directory Counting_files)
          (\<lambda>path t. case fs_is_directory path t of (b, t') \<Rightarrow> (\<not> b, t')) s')"


section \<open>Formatted output\<close>

text \<open>
  \<^verbatim>\<open>printf\<close> restricted to the two conversions the program uses, \<^verbatim>\<open>%s\<close> and \<^verbatim>\<open>%lu\<close>.
  Arguments beyond the conversions of the format are ignored, as in C.
\<close>

datatype arg = Str string | ULong nat

definition digit_char :: "nat \<Rightarrow> char" where
  "digit_char d = char_of (48 + d)"

fun decimal :: "nat \<Rightarrow> string" where
  "decimal n = (if n < 10 then [digit_char n] else decimal (n div 10) @ [digit_char (n mod 10)])"

declare decimal.simps [simp del]

fun format_string :: "string \<Rightarrow> arg list \<Rightarrow> string" where
  "format_string [] args = []"
| "format_string (c # fmt) args =
     (if c = CHR ''%'' then
        (case (fmt, args) of
           (CHR ''s'' # fmt', Str a # args') \<Rightarrow> a @ format_string fmt' args'
         | (CHR ''l'' # CHR ''u'' # fmt', ULong n # args') \<Rightarrow> decimal n @ format_string fmt' args'
         | _ \<Rightarrow> c # format_string fmt args)
      else c # format_string fmt args)"

definition printf :: "string \<Rightarrow> arg list \<Rightarrow> state \<Rightarrow> state" where
  "printf format args s = s\<lparr>stdout := stdout s @ format_string format args\<rparr>"

definition ESC :: string where
  "ESC = [CHR 0x1B]"

definition NL :: string where
  "NL = [CHR 0x0A]"

text \<open>The five format strings of \<^verbatim>\<open>traverse\<close>.\<close>

definition format_symlink_directory :: string where
  "format_symlink_directory =
     ''%s%s '' @ ESC @ ''[94m%s'' @ ESC @ ''[0m -> '' @ ESC @ ''[92m%s'' @ ESC @ ''[0m'' @ NL"

definition format_symlink_file :: string where
  "format_symlink_file = ''%s%s %s -> '' @ ESC @ ''[92m%s'' @ ESC @ ''[0m'' @ NL"

definition format_access_denied :: string where
  "format_access_denied = ''%s%s '' @ ESC @ ''[94m%s'' @ ESC @ ''[0m [%s]'' @ NL"

definition format_directory :: string where
  "format_directory = ''%s%s '' @ ESC @ ''[94m%s'' @ ESC @ ''[0m'' @ NL"

definition format_file :: string where
  "format_file = ''%s%s %s'' @ NL"

text \<open>The branch and continuation glyphs, as the UTF-8 bytes of the source literals.\<close>

definition glyph_last :: string where
  "glyph_last = [CHR 0xE2, CHR 0x94, CHR 0x94, CHR 0xE2, CHR 0x94, CHR 0x80, CHR 0xE2, CHR 0x94, CHR 0x80]"

definition glyph_middle :: string where
  "glyph_middle = [CHR 0xE2, CHR 0x94, CHR 0x9C, CHR 0xE2, CHR 0x94, CHR 0x80, CHR 0xE2, CHR 0x94, CHR 0x80]"

definition continuation_last :: string where
  "continuation_last = ''    ''"

definition continuation_middle :: string where
  "continuation_middle = [CHR 0xE2, CHR 0x94, CHR 0x82, CHR 0xC2, CHR 0xA0, CHR '' '', CHR '' '']"

section \<open>Walker\<close>

text \<open>
  \<^verbatim>\<open>std::int32_t\<close> arithmetic: the result of \<^verbatim>\<open>1 + level\<close> reduced to 32 bits, two's
  complement. The levels of a run never reach the point where the reduction changes the
  sum, as shown below for every call made from \<^verbatim>\<open>main\<close>.
\<close>

definition int32 :: "int \<Rightarrow> int" where
  "int32 x = (x + 2 ^ 31) mod 2 ^ 32 - 2 ^ 31"

text \<open>
  A record of what one invocation of \<^verbatim>\<open>traverse\<close> did: its arguments, the two counts, and
  per loop iteration the entry, the value of \<^verbatim>\<open>entries_count\<close> after its increment, the
  branch glyph, the bytes printed and the record of the recursive call if one was made.
  No decision of the program reads this record.
\<close>

datatype call = Call
  (call_directory: entry)
  (call_level: int)
  (call_segment: string)
  (call_n_directories: nat)
  (call_n_files: nat)
  (call_iterations: "iteration list")
and iteration = Iteration
  (it_entry: entry)
  (it_entries_count: nat)
  (it_left: string)
  (it_line: string)
  (it_call: "call option")

text \<open>
  \<^verbatim>\<open>traverse\<close> (lines 61 to 131) and the body of its range-for loop, \<open>traverse_entries\<close>,
  which carries the loop's view of the enclosing scope: the two counts, \<^verbatim>\<open>entries_count\<close>,
  \<^verbatim>\<open>level\<close> and \<^verbatim>\<open>segment\<close>, and what the read after the last entry gives in this pass.
  After each call that may have ended in \<^verbatim>\<open>std::terminate\<close> the rest is skipped; the call
  record then holds what had been done.
\<close>

function traverse :: "entry \<Rightarrow> int \<Rightarrow> string \<Rightarrow> state \<Rightarrow> call \<times> state"
  and traverse_entries ::
    "entry list \<Rightarrow> errno option \<Rightarrow> nat \<Rightarrow> nat \<Rightarrow> nat \<Rightarrow> int \<Rightarrow> string \<Rightarrow> state
       \<Rightarrow> iteration list \<times> state"
where
  "traverse directory level segment s =
     (case number_of_directories_in_directory directory s of (n_directories, s) \<Rightarrow>
      if terminated s then (Call directory level segment n_directories 0 [], s) else
      case number_of_files_in_directory directory s of (n_files, s) \<Rightarrow>
      if terminated s then (Call directory level segment n_directories n_files [], s) else
      let entries_count = 0;
          s = s\<lparr>total_directories := total_directories s + n_directories\<rparr>;
          s = s\<lparr>total_files := total_files s + n_files\<rparr> in
      case fs_directory_iterator directory s of (entries, s) \<Rightarrow>
      case traverse_entries entries (read_failure directory Walking) n_directories n_files
             entries_count level segment s of
        (iterations, s) \<Rightarrow>
          (Call directory level segment n_directories n_files iterations, s))"
| "traverse_entries [] failure n_directories n_files entries_count level segment s = ([], s)"
| "traverse_entries (entry # rest) failure n_directories n_files entries_count level segment s =
     (case fs_is_directory entry s of (is_directory, s) \<Rightarrow>
      case fs_is_symlink entry s of (is_symlink, s) \<Rightarrow>
      case (case fs_is_symlink entry s of
              (True, s) \<Rightarrow> fs_canonical entry s
            | (False, s) \<Rightarrow> ([], s)) of (canonical_path, s) \<Rightarrow>
      let entry_name = filename entry;
          s = (if is_directory then snd (fs_directory_iterator entry s) else s);
          access_denied = (EACCES = err s);
          format =
            (if is_symlink
             then if is_directory then format_symlink_directory else format_symlink_file
             else if is_directory
               then if access_denied \<and> level \<noteq> max_depth s
                 then format_access_denied
                 else format_directory
               else format_file);
          entries_count = entries_count + 1;
          left = (if entries_count = n_directories + n_files then glyph_last else glyph_middle);
          right = (if entries_count = n_directories + n_files
                   then continuation_last else continuation_middle);
          args =
            (if is_symlink
             then [Str segment, Str left, Str entry_name, Str canonical_path]
             else if access_denied \<and> level \<noteq> max_depth s
               then [Str segment, Str left, Str entry_name, Str ''access denied'']
               else [Str segment, Str left, Str entry_name]);
          s = printf format args s in
      case (if is_directory \<and> \<not> is_symlink \<and> \<not> access_denied \<and> level \<noteq> max_depth s
            then (case traverse entry (int32 (1 + level)) (segment @ right) s of
                    (c, s) \<Rightarrow> (Some c, s))
            else (None, s)) of (recursion, s) \<Rightarrow>
      if terminated s
      then ([Iteration entry entries_count left (format_string format args) recursion], s)
      else
      case increment rest failure s of (thrown, s) \<Rightarrow>
      if thrown
      then ([Iteration entry entries_count left (format_string format args) recursion], s)
      else
      case traverse_entries rest failure n_directories n_files entries_count level segment s of
        (iterations, s) \<Rightarrow>
          (Iteration entry entries_count left (format_string format args) recursion
             # iterations, s))"
  by pat_completeness auto
termination
proof (relation "measure (\<lambda>x. case x of
      Inl (directory, _) \<Rightarrow> size directory
    | Inr (entries, _) \<Rightarrow> size_list size entries)", goal_cases)
  case 1
  show ?case by simp
next
  case (2 directory level segment s)
  then show ?case
    by (cases directory) (auto simp: fs_directory_iterator_def split: sum.splits)
next
  case 3
  show ?case by simp
next
  case 4
  show ?case by simp
qed

declare traverse.simps [simp del]
declare traverse_entries.simps(2) [simp del]
declare count_if.simps(2) [simp del]

text \<open>The invocations recorded below a call, itself first, in the order they were made.\<close>

fun calls_of :: "call \<Rightarrow> call list"
  and calls_of_iteration :: "iteration \<Rightarrow> call list"
where
  "calls_of (Call d l sg nd nf its) =
     Call d l sg nd nf its # concat (map calls_of_iteration its)"
| "calls_of_iteration (Iteration e n lf ln r) =
     (case r of None \<Rightarrow> [] | Some c \<Rightarrow> calls_of c)"

text \<open>The bytes a call wrote, from its record: each line followed by the lines of its recursion.\<close>

fun output_of :: "call \<Rightarrow> string"
  and output_of_iteration :: "iteration \<Rightarrow> string"
where
  "output_of (Call d l sg nd nf its) = concat (map output_of_iteration its)"
| "output_of_iteration (Iteration e n lf ln r) =
     ln @ (case r of None \<Rightarrow> [] | Some c \<Rightarrow> output_of c)"

section \<open>Entry point\<close>

text \<open>
  \<^verbatim>\<open>std::atoi\<close> belongs to the C library, not to the repository. It is modelled as
  \<^verbatim>\<open>(int) strtol(nptr, NULL, 10)\<close>: white space is skipped, an optional sign is read, then
  the longest run of decimal digits; no digits give 0. The value saturates at the bounds
  of \<^verbatim>\<open>long\<close> (64 bits) and is then reduced to \<^verbatim>\<open>int\<close>.
\<close>

definition isspace :: "char \<Rightarrow> bool" where
  "isspace c = (c \<in> set [CHR '' '', CHR 0x09, CHR 0x0A, CHR 0x0B, CHR 0x0C, CHR 0x0D])"

definition isdigit :: "char \<Rightarrow> bool" where
  "isdigit c = (48 \<le> (of_char c :: nat) \<and> (of_char c :: nat) \<le> 57)"

fun digits_value :: "int \<Rightarrow> string \<Rightarrow> int" where
  "digits_value acc [] = acc"
| "digits_value acc (c # cs) =
     (if isdigit c then digits_value (10 * acc + (of_char c - 48)) cs else acc)"

definition strtol10 :: "string \<Rightarrow> int" where
  "strtol10 nptr =
     (let t = dropWhile isspace nptr;
          v = (case t of
                 [] \<Rightarrow> 0
               | c # cs \<Rightarrow>
                   if c = CHR ''-'' then - digits_value 0 cs
                   else if c = CHR ''+'' then digits_value 0 cs
                   else digits_value 0 t)
      in max (- (2 ^ 63)) (min (2 ^ 63 - 1) v))"

definition atoi :: "string \<Rightarrow> int" where
  "atoi nptr = int32 (strtol10 nptr)"

definition EXIT_SUCCESS :: int where
  "EXIT_SUCCESS = 0"

definition EXIT_FAILURE :: int where
  "EXIT_FAILURE = 1"

text \<open>
  How the process ends: it exits with a status, by \<^verbatim>\<open>return\<close> from \<^verbatim>\<open>main\<close> or by
  \<^verbatim>\<open>std::exit\<close>, or \<^verbatim>\<open>std::terminate\<close> aborts it, which leaves no exit status of its own (the
  process is ended by a signal).
\<close>

datatype ending = Exited int | Aborted

text \<open>
  What a run of the process leaves: how it ended, the last state with both streams, and
  the record of the top-level call of \<^verbatim>\<open>traverse\<close> when that call returned. After an abort
  the bytes of \<open>stdout\<close> that were still buffered may never have been written.
\<close>

record run =
  ending :: ending
  final :: state
  walk :: "call option"

text \<open>
  \<^verbatim>\<open>fatal\<close>: \<^verbatim>\<open>sprintf\<close> builds the format from the message, \<^verbatim>\<open>fprintf\<close> writes it to
  \<^verbatim>\<open>stderr\<close>, \<^verbatim>\<open>std::exit(EXIT_FAILURE)\<close> ends the process.
\<close>

definition fatal :: "string \<Rightarrow> arg list \<Rightarrow> state \<Rightarrow> run" where
  "fatal format args s =
     (let fmt_buffer = format_string (''cxx-tree: %s'' @ NL) [Str format];
          s = s\<lparr>stderr := stderr s @ format_string fmt_buffer args\<rparr>
      in \<lparr>ending = Exited EXIT_FAILURE, final = s, walk = None\<rparr>)"

definition message_no_such_directory :: string where
  "message_no_such_directory =
     ''cannot access '' @ [CHR 0x27] @ ''%s'' @ [CHR 0x27] @ '': No such directory''"

definition message_not_a_directory :: string where
  "message_not_a_directory = ''%s: Not a directory''"

text \<open>The state at process start: the initialisers of the globals, and \<^verbatim>\<open>std::error_code err { }\<close>.\<close>

definition initial_state :: state where
  "initial_state =
     \<lparr>max_depth = 1, total_directories = 0, total_files = 0, err = 0, stdout = [], stderr = [],
      terminated = False\<rparr>"

text \<open>
  \<^verbatim>\<open>main\<close>. The argument vector is \<open>argv\<close> with \<open>argc = length argv\<close>; \<^verbatim>\<open>argv[argc]\<close> is the
  null pointer. \<open>lookup\<close> resolves the root path to what the file system holds there.
\<close>

definition main :: "(string \<Rightarrow> entry) \<Rightarrow> string list \<Rightarrow> run" where
  "main lookup argv =
     (let argc = int (length argv);
          directory = (if 1 < length argv then argv ! 1 else ''.'');
          s = initial_state in
      case fs_exists (lookup directory) s of (exists, s) \<Rightarrow>
      if \<not> exists then fatal message_no_such_directory [Str directory] s
      else case fs_is_directory (lookup directory) s of (is_directory, s) \<Rightarrow>
      if \<not> is_directory then fatal message_not_a_directory [Str directory] s
      else
        let s = (if 3 \<le> argc
                 then let s = s\<lparr>max_depth := atoi (argv ! 2)\<rparr>
                      in s\<lparr>max_depth := (if max_depth s < 1 then 1 else max_depth s)\<rparr>
                 else s);
            s = printf (''%s'' @ NL) [Str directory] s in
        case traverse (lookup directory) 1 [] s of (c, s) \<Rightarrow>
        if terminated s then \<lparr>ending = Aborted, final = s, walk = None\<rparr> else
        let s = printf (NL @ ''%lu %s, %lu %s'' @ NL)
                  [ULong (total_directories s),
                   Str (if total_directories s = 1 then ''directory'' else ''directories''),
                   ULong (total_files s),
                   Str (if total_files s = 1 then ''file'' else ''files'')] s
        in \<lparr>ending = Exited EXIT_SUCCESS, final = s, walk = Some c\<rparr>)"

section \<open>What the probes answer, read off an entry\<close>

text \<open>
  The values the locals of the loop body take for an entry. \<open>probed_error\<close> is the error
  code left by the last probe of the body: the dry-run \<^verbatim>\<open>fs::directory_iterator\<close> when the
  entry is a directory, else \<^verbatim>\<open>fs::canonical\<close> when it is a symlink, else the second
  \<^verbatim>\<open>fs::is_symlink\<close>.
\<close>

definition is_dir :: "entry \<Rightarrow> bool" where
  "is_dir e = (status e = Inr True)"

definition is_link :: "entry \<Rightarrow> bool" where
  "is_link e = (symlink_status e = Inr True)"

definition children :: "entry \<Rightarrow> entry list" where
  "children e = (case listing e of Inl _ \<Rightarrow> [] | Inr es \<Rightarrow> es)"

definition error_of :: "errno + 'a \<Rightarrow> errno" where
  "error_of r = (case r of Inl e \<Rightarrow> e | Inr _ \<Rightarrow> 0)"

definition probed_error :: "entry \<Rightarrow> errno" where
  "probed_error e =
     (if is_dir e then error_of (listing e)
      else if is_link e then error_of (canonical_path_of e)
      else error_of (symlink_status e))"

definition denied :: "entry \<Rightarrow> bool" where
  "denied e = (probed_error e = EACCES)"

text \<open>
  The line the loop body prints for an entry at \<open>level\<close> under depth bound \<open>K\<close>, and its
  recursion guard, both in terms of the values above.
\<close>

definition entry_line :: "entry \<Rightarrow> int \<Rightarrow> int \<Rightarrow> string \<Rightarrow> string \<Rightarrow> string" where
  "entry_line e level K segment left =
     format_string
       (if is_link e
        then if is_dir e then format_symlink_directory else format_symlink_file
        else if is_dir e
          then if denied e \<and> level \<noteq> K then format_access_denied else format_directory
          else format_file)
       (if is_link e
        then [Str segment, Str left, Str (filename e),
              Str (case canonical_path_of e of Inl _ \<Rightarrow> [] | Inr t \<Rightarrow> t)]
        else if denied e \<and> level \<noteq> K
          then [Str segment, Str left, Str (filename e), Str ''access denied'']
          else [Str segment, Str left, Str (filename e)])"

definition recurses :: "entry \<Rightarrow> int \<Rightarrow> int \<Rightarrow> bool" where
  "recurses e level K = (is_dir e \<and> \<not> is_link e \<and> \<not> denied e \<and> level \<noteq> K)"

section \<open>Well-formed call records\<close>

text \<open>
  The facts the call records of a run satisfy, collected once. In every record, also that
  of a call cut short by \<^verbatim>\<open>std::terminate\<close>, an iteration's glyph, line and recursion are
  those the loop body computes from its entry (\<open>call_sound\<close>). The record of a call that
  returned has moreover the two counts of its directory and one iteration per listed
  entry, numbered from 1 (\<open>call_ok\<close>). \<open>walked\<close> relates the states before and after a
  stretch of the walk to the calls recorded and the bytes written in it.
\<close>

definition iteration_ok :: "int \<Rightarrow> nat \<Rightarrow> int \<Rightarrow> string \<Rightarrow> iteration \<Rightarrow> bool" where
  "iteration_ok K n level segment it =
     (it_left it = (if it_entries_count it = n then glyph_last else glyph_middle) \<and>
      it_line it = entry_line (it_entry it) level K segment (it_left it) \<and>
      (case it_call it of
         None \<Rightarrow> \<not> recurses (it_entry it) level K
       | Some y \<Rightarrow>
           recurses (it_entry it) level K \<and> call_directory y = it_entry it \<and>
           call_level y = int32 (1 + level) \<and>
           call_segment y =
             segment @ (if it_entries_count it = n then continuation_last
                        else continuation_middle)))"

definition call_sound :: "int \<Rightarrow> call \<Rightarrow> bool" where
  "call_sound K x =
     list_all (iteration_ok K (call_n_directories x + call_n_files x) (call_level x)
                 (call_segment x)) (call_iterations x)"

definition call_ok :: "int \<Rightarrow> call \<Rightarrow> bool" where
  "call_ok K x =
     (call_n_directories x = length (filter is_dir (children (call_directory x))) \<and>
      call_n_files x = length (filter (\<lambda>e. \<not> is_dir e) (children (call_directory x))) \<and>
      map it_entry (call_iterations x) = children (call_directory x) \<and>
      map it_entries_count (call_iterations x) = [1..<Suc (length (call_iterations x))] \<and>
      list_all (iteration_ok K (call_n_directories x + call_n_files x) (call_level x)
                  (call_segment x)) (call_iterations x))"

definition walked :: "state \<Rightarrow> call list \<Rightarrow> string \<Rightarrow> state \<Rightarrow> bool" where
  "walked s cs out s' =
     (max_depth s' = max_depth s \<and> stderr s' = stderr s \<and> stdout s' = stdout s @ out \<and>
      (terminated s \<longrightarrow> terminated s') \<and>
      list_all (call_sound (max_depth s)) cs \<and>
      (\<not> terminated s' \<longrightarrow>
         total_directories s' = total_directories s + sum_list (map call_n_directories cs) \<and>
         total_files s' = total_files s + sum_list (map call_n_files cs) \<and>
         list_all (call_ok (max_depth s)) cs))"

text \<open>
  A pass over the listing of a directory throws when there is a last entry to step from
  and the read after it fails. \<open>reads_to_end\<close> holds of a subtree in which no pass over
  any listing fails.
\<close>

definition throws :: "entry \<Rightarrow> pass \<Rightarrow> bool" where
  "throws d p = (children d \<noteq> [] \<and> read_failure d p \<noteq> None)"

function reads_to_end :: "entry \<Rightarrow> bool" where
  "reads_to_end e =
     (read_failure e Counting_directories = None \<and> read_failure e Counting_files = None \<and>
      read_failure e Walking = None \<and> list_all reads_to_end (children e))"
  by pat_completeness auto
termination
proof (relation "measure size", goal_cases)
  case 1
  show ?case by simp
next
  case (2 e c)
  obtain n st ls cp li rf where e: "e = Entry n st ls cp li rf"
    by (cases e)
  with 2 obtain es where "li = Inr es" "c \<in> set es"
    by (cases li) (auto simp: children_def)
  then have "size c \<le> size_list size es" "size e = Suc (Suc (size_list size es))"
    using size_list_estimation'[of c es "size c" size] e by simp_all
  then show ?case by simp
qed

declare reads_to_end.simps [simp del]

text \<open>The arguments \<^verbatim>\<open>main\<close> works with: the root path and the clamped depth bound.\<close>

definition root_path :: "string list \<Rightarrow> string" where
  "root_path argv = (if 1 < length argv then argv ! 1 else ''.'')"

definition depth_bound :: "string list \<Rightarrow> int" where
  "depth_bound argv =
     (if 3 \<le> length argv then (if atoi (argv ! 2) < 1 then 1 else atoi (argv ! 2)) else 1)"

definition summary :: "state \<Rightarrow> string" where
  "summary s =
     format_string (NL @ ''%lu %s, %lu %s'' @ NL)
       [ULong (total_directories s),
        Str (if total_directories s = 1 then ''directory'' else ''directories''),
        ULong (total_files s),
        Str (if total_files s = 1 then ''file'' else ''files'')]"

section \<open>A sample file system\<close>

text \<open>
  Entries as the probes see the usual kinds of file: a regular file, a readable directory,
  a directory that cannot be opened, a symlink to a directory, a path that does not exist.
\<close>

definition no_failure :: "pass \<Rightarrow> errno option" where
  "no_failure p = None"

definition plain_file :: "string \<Rightarrow> entry" where
  "plain_file name = Entry name (Inr False) (Inr False) (Inr name) (Inl ENOTDIR) no_failure"

definition plain_directory :: "string \<Rightarrow> entry list \<Rightarrow> entry" where
  "plain_directory name es = Entry name (Inr True) (Inr False) (Inr name) (Inr es) no_failure"

definition denied_directory :: "string \<Rightarrow> entry" where
  "denied_directory name =
     Entry name (Inr True) (Inr False) (Inr name) (Inl EACCES) no_failure"

definition directory_symlink :: "string \<Rightarrow> string \<Rightarrow> entry list \<Rightarrow> entry" where
  "directory_symlink name target es =
     Entry name (Inr True) (Inr True) (Inr target) (Inr es) no_failure"

definition denied_directory_symlink :: "string \<Rightarrow> string \<Rightarrow> entry" where
  "denied_directory_symlink name target =
     Entry name (Inr True) (Inr True) (Inr target) (Inl EACCES) no_failure"

definition missing :: "string \<Rightarrow> entry" where
  "missing name =
     Entry name (Inl ENOENT) (Inl ENOENT) (Inl ENOENT) (Inl ENOENT) no_failure"

text \<open>
  The sample tree: a file, a directory \<open>sub\<close> holding a file and a directory, a symlink
  to \<open>sub\<close>, and a directory that denies access.
\<close>

definition example_inner :: entry where
  "example_inner = plain_directory ''inner'' [plain_file ''x'']"

definition example_sub :: entry where
  "example_sub = plain_directory ''sub'' [plain_file ''deep.txt'', example_inner]"

definition example_lnk :: entry where
  "example_lnk = directory_symlink ''lnk'' ''/r/sub'' [plain_file ''deep.txt'', example_inner]"

definition example_secret :: entry where
  "example_secret = denied_directory ''secret''"

definition example_root :: entry where
  "example_root =
     plain_directory ''.'' [plain_file ''a.txt'', example_sub, example_lnk, example_secret]"

definition example_lookup :: "string \<Rightarrow> entry" where
  "example_lookup p =
     (if p = ''.'' then example_root
      else if p = ''a.txt'' then plain_file ''a.txt''
      else missing p)"

definition example_argv :: "string list" where
  "example_argv = [''cxx-tree'', ''.'', ''2'']"

text \<open>The call records of the run on the sample tree with depth bound 2.\<close>

definition example_it_deep :: iteration where
  "example_it_deep =
     Iteration (plain_file ''deep.txt'') 1 glyph_middle
       (continuation_middle @ glyph_middle @ '' deep.txt'' @ NL) None"

definition example_it_inner :: iteration where
  "example_it_inner =
     Iteration example_inner 2 glyph_last
       (continuation_middle @ glyph_last @ '' '' @ ESC @ ''[94minner'' @ ESC @ ''[0m'' @ NL)
       None"

definition example_sub_call :: call where
  "example_sub_call =
     Call example_sub 2 continuation_middle 1 1 [example_it_deep, example_it_inner]"

definition example_it_a :: iteration where
  "example_it_a =
     Iteration (plain_file ''a.txt'') 1 glyph_middle (glyph_middle @ '' a.txt'' @ NL) None"

definition example_it_sub :: iteration where
  "example_it_sub =
     Iteration example_sub 2 glyph_middle
       (glyph_middle @ '' '' @ ESC @ ''[94msub'' @ ESC @ ''[0m'' @ NL)
       (Some example_sub_call)"

definition example_it_lnk :: iteration where
  "example_it_lnk =
     Iteration example_lnk 3 glyph_middle
       (glyph_middle @ '' '' @ ESC @ ''[94mlnk'' @ ESC @ ''[0m -> '' @ ESC @ ''[92m/r/sub''
          @ ESC @ ''[0m'' @ NL)
       None"

definition example_it_secret :: iteration where
  "example_it_secret =
     Iteration example_secret 4 glyph_last
       (glyph_last @ '' '' @ ESC @ ''[94msecret'' @ ESC @ ''[0m [access denied]'' @ NL)
       None"

definition example_call :: call where
  "example_call =
     Call example_root 1 [] 3 1
       [example_it_a, example_it_sub, example_it_lnk, example_it_secret]"

text \<open>A root holding only a symlink to a directory that denies access, and an empty root.\<close>

definition example_vault :: entry where
  "example_vault = denied_directory_symlink ''vault'' ''/r/vault''"

definition vault_root :: entry where
  "vault_root = plain_directory ''.'' [example_vault]"

definition vault_lookup :: "string \<Rightarrow> entry" where
  "vault_lookup p = (if p = ''.'' then vault_root else missing p)"

definition vault_it :: iteration where
  "vault_it =
     Iteration example_vault 1 glyph_last
       (glyph_last @ '' '' @ ESC @ ''[94mvault'' @ ESC @ ''[0m -> '' @ ESC @ ''[92m/r/vault''
          @ ESC @ ''[0m'' @ NL)
       None"

definition vault_call :: call where
  "vault_call = Call vault_root 1 [] 1 0 [vault_it]"




text \<open>Another view of the sample tree: other paths resolve differently, and so does the
  program name; one more argument follows the depth.\<close>

definition example_lookup_other :: "string \<Rightarrow> entry" where
  "example_lookup_other p = (if p = ''.'' then example_root else plain_file p)"

definition example_argv_other :: "string list" where
  "example_argv_other = [''./a.out'', ''.'', ''2'', ''more'']"

text \<open>
  A root holding a directory \<open>sub\<close>, in which the pass \<open>p\<close> fails with an input/output
  error on the read after its only entry, and after it a file.
\<close>

definition EIO :: errno where
  "EIO = 5"

definition failing :: "pass \<Rightarrow> pass \<Rightarrow> errno option" where
  "failing p q = (if q = p then Some EIO else None)"

definition faulty_sub :: "pass \<Rightarrow> entry" where
  "faulty_sub p =
     Entry ''sub'' (Inr True) (Inr False) (Inr ''sub'') (Inr [plain_file ''deep.txt''])
       (failing p)"

definition faulty_root :: "pass \<Rightarrow> entry" where
  "faulty_root p = plain_directory ''.'' [faulty_sub p, plain_file ''z.txt'']"

definition faulty_lookup :: "pass \<Rightarrow> string \<Rightarrow> entry" where
  "faulty_lookup p path = (if path = ''.'' then faulty_root p else missing path)"

text \<open>The error code a counter leaves: that of its last probe.\<close>

definition counted_error :: "entry \<Rightarrow> errno" where
  "counted_error d =
     (if children d = [] then error_of (listing d) else error_of (status (last (children d))))"
section \<open>The code in terms of the probed values\<close>

lemma fs_is_directory_eq: "fs_is_directory p s = (is_dir p, s\<lparr>err := error_of (status p)\<rparr>)"
  by (auto simp: fs_is_directory_def is_dir_def set_err_def error_of_def split: sum.splits)

lemma fs_is_symlink_eq: "fs_is_symlink p s = (is_link p, s\<lparr>err := error_of (symlink_status p)\<rparr>)"
  by (auto simp: fs_is_symlink_def is_link_def set_err_def error_of_def split: sum.splits)

lemma fs_canonical_eq:
  "fs_canonical p s =
     ((case canonical_path_of p of Inl _ \<Rightarrow> [] | Inr t \<Rightarrow> t), s\<lparr>err := error_of (canonical_path_of p)\<rparr>)"
  by (simp add: fs_canonical_def set_err_def error_of_def)

lemma fs_directory_iterator_eq:
  "fs_directory_iterator p s = (children p, s\<lparr>err := error_of (listing p)\<rparr>)"
  by (simp add: fs_directory_iterator_def children_def set_err_def error_of_def)

lemma increment_eq:
  "increment rest failure s =
     (rest = [] \<and> failure \<noteq> None,
      if rest = [] \<and> failure \<noteq> None then s\<lparr>terminated := True\<rparr> else s)"
  by (auto simp: increment_def)

lemma count_if_directories:
  "count_if es failure fs_is_directory s =
     (length (filter is_dir es),
      (if es = [] then s
       else if failure \<noteq> None
         then s\<lparr>err := error_of (status (last es)), terminated := True\<rparr>
         else s\<lparr>err := error_of (status (last es))\<rparr>))"
  by (induction es arbitrary: s)
    (auto simp: count_if.simps(2) fs_is_directory_eq increment_eq)

lemma count_if_files:
  "count_if es failure (\<lambda>path t. case fs_is_directory path t of (b, t') \<Rightarrow> (\<not> b, t')) s =
     (length (filter (\<lambda>e. \<not> is_dir e) es),
      (if es = [] then s
       else if failure \<noteq> None
         then s\<lparr>err := error_of (status (last es)), terminated := True\<rparr>
         else s\<lparr>err := error_of (status (last es))\<rparr>))"
  by (induction es arbitrary: s)
    (auto simp: count_if.simps(2) fs_is_directory_eq increment_eq)

lemma number_of_directories_eq:
  "number_of_directories_in_directory d s =
     (length (filter is_dir (children d)),
      (if throws d Counting_directories
       then s\<lparr>err := counted_error d, terminated := True\<rparr>
       else s\<lparr>err := counted_error d\<rparr>))"
  by (simp add: number_of_directories_in_directory_def fs_directory_iterator_eq
      count_if_directories counted_error_def throws_def)

lemma number_of_files_eq:
  "number_of_files_in_directory d s =
     (length (filter (\<lambda>e. \<not> is_dir e) (children d)),
      (if throws d Counting_files
       then s\<lparr>err := counted_error d, terminated := True\<rparr>
       else s\<lparr>err := counted_error d\<rparr>))"
  by (simp add: number_of_files_in_directory_def fs_directory_iterator_eq count_if_files
      counted_error_def throws_def)

lemma traverse_eq:
  "traverse d level segment s =
     (if throws d Counting_directories
      then (Call d level segment (length (filter is_dir (children d))) 0 [],
            s\<lparr>err := counted_error d, terminated := True\<rparr>)
      else if terminated s
      then (Call d level segment (length (filter is_dir (children d))) 0 [],
            s\<lparr>err := counted_error d\<rparr>)
      else if throws d Counting_files
      then (Call d level segment (length (filter is_dir (children d)))
              (length (filter (\<lambda>e. \<not> is_dir e) (children d))) [],
            s\<lparr>err := counted_error d, terminated := True\<rparr>)
      else
       (case traverse_entries (children d) (read_failure d Walking)
             (length (filter is_dir (children d)))
             (length (filter (\<lambda>e. \<not> is_dir e) (children d))) 0 level segment
             (s\<lparr>total_directories := total_directories s + length (filter is_dir (children d)),
                total_files := total_files s + length (filter (\<lambda>e. \<not> is_dir e) (children d)),
                err := error_of (listing d)\<rparr>) of
        (its, s') \<Rightarrow>
          (Call d level segment (length (filter is_dir (children d)))
             (length (filter (\<lambda>e. \<not> is_dir e) (children d))) its, s')))"
  by (simp add: traverse.simps number_of_directories_eq number_of_files_eq
      fs_directory_iterator_eq)

lemma traverse_entries_eq:
  "traverse_entries (e # rest) failure nd nf cnt level segment s =
     (let left = (if Suc cnt = nd + nf then glyph_last else glyph_middle);
          right = (if Suc cnt = nd + nf then continuation_last else continuation_middle);
          line = entry_line e level (max_depth s) segment left;
          s1 = s\<lparr>err := probed_error e, stdout := stdout s @ line\<rparr>
      in case (if recurses e level (max_depth s)
               then (case traverse e (int32 (1 + level)) (segment @ right) s1 of
                       (c, s2) \<Rightarrow> (Some c, s2))
               else (None, s1)) of
           (r, s2) \<Rightarrow>
             if terminated s2 then ([Iteration e (Suc cnt) left line r], s2)
             else if rest = [] \<and> failure \<noteq> None
             then ([Iteration e (Suc cnt) left line r], s2\<lparr>terminated := True\<rparr>)
             else
             (case traverse_entries rest failure nd nf (Suc cnt) level segment s2 of
                (its, s3) \<Rightarrow> (Iteration e (Suc cnt) left line r # its, s3)))"
  apply (simp only: traverse_entries.simps(2) fs_is_directory_eq fs_is_symlink_eq fs_canonical_eq
      fs_directory_iterator_eq increment_eq prod.case Let_def)
  apply (cases "is_dir e"; cases "is_link e")
  apply (simp_all add: printf_def entry_line_def recurses_def denied_def probed_error_def
      eq_commute[of EACCES] split: prod.splits cong: if_cong)
  done


section \<open>Every call record of a walk is well formed\<close>

lemma walked_refl: "walked s [] [] s"
  by (simp add: walked_def)

lemma walked_trans:
  "walked s cs out s1 \<Longrightarrow> walked s1 cs' out' s2 \<Longrightarrow> walked s (cs @ cs') (out @ out') s2"
  by (auto simp: walked_def)

lemma walked_terminate: "walked s [] [] (s\<lparr>terminated := True\<rparr>)"
  by (simp add: walked_def)

lemma entry_children_induct [case_names children]:
  assumes "\<And>d. (\<And>c. c \<in> set (children d) \<Longrightarrow> P c) \<Longrightarrow> P d"
  shows "P d"
proof (induction d)
  case (Entry n st ls cp li rf)
  show ?case
  proof (rule assms)
    fix c assume "c \<in> set (children (Entry n st ls cp li rf))"
    then show "P c"
      using Entry by (cases li) (auto simp: children_def)
  qed
qed

lemma traverse_entries_walked:
  assumes sub: "\<And>e level segment s c s'. e \<in> set es \<Longrightarrow> traverse e level segment s = (c, s') \<Longrightarrow>
       call_directory c = e \<and> call_level c = level \<and> call_segment c = segment \<and>
       walked s (calls_of c) (output_of c) s'"
    and run: "traverse_entries es failure nd nf cnt level segment s = (its, s')"
  shows "list_all (iteration_ok (max_depth s) (nd + nf) level segment) its \<and>
         walked s (concat (map calls_of_iteration its)) (concat (map output_of_iteration its)) s' \<and>
         (\<not> terminated s' \<longrightarrow>
            map it_entry its = es \<and>
            map it_entries_count its = [Suc cnt..<Suc cnt + length es])"
  using sub run
proof (induction es arbitrary: cnt s its s')
  case Nil
  then show ?case by (simp add: walked_refl)
next
  case (Cons e rest)
  define left where "left = (if Suc cnt = nd + nf then glyph_last else glyph_middle)"
  define right where "right = (if Suc cnt = nd + nf then continuation_last else continuation_middle)"
  define line where "line = entry_line e level (max_depth s) segment left"
  define s1 where "s1 = s\<lparr>err := probed_error e, stdout := stdout s @ line\<rparr>"
  obtain r s2 where step: "(if recurses e level (max_depth s)
               then (case traverse e (int32 (1 + level)) (segment @ right) s1 of
                       (c, s2) \<Rightarrow> (Some c, s2))
               else (None, s1)) = (r, s2)"
    by (cases "(if recurses e level (max_depth s)
               then (case traverse e (int32 (1 + level)) (segment @ right) s1 of
                       (c, s2) \<Rightarrow> (Some c, s2))
               else (None, s1))") blast
  define it where "it = Iteration e (Suc cnt) left line r"
  define thrown where "thrown = (rest = [] \<and> failure \<noteq> None)"
  have eq: "traverse_entries (e # rest) failure nd nf cnt level segment s =
      (if terminated s2 then ([it], s2)
       else if thrown then ([it], s2\<lparr>terminated := True\<rparr>)
       else (case traverse_entries rest failure nd nf (Suc cnt) level segment s2 of
               (its, s3) \<Rightarrow> (it # its, s3)))"
    using step unfolding left_def right_def line_def s1_def it_def thrown_def
    by (simp add: traverse_entries_eq Let_def)
  have w1: "walked s [] line s1"
    by (simp add: walked_def s1_def)
  have head: "iteration_ok (max_depth s) (nd + nf) level segment it
      \<and> walked s1 (calls_of_iteration it) (case r of None \<Rightarrow> [] | Some c \<Rightarrow> output_of c) s2"
  proof (cases "recurses e level (max_depth s)")
    case False
    with step have "r = None" "s2 = s1" by simp_all
    with False show ?thesis
      by (simp add: iteration_ok_def left_def line_def walked_refl it_def)
  next
    case True
    obtain c where c: "traverse e (int32 (1 + level)) (segment @ right) s1 = (c, s2)" "r = Some c"
      using step True by (auto split: prod.splits)
    from Cons.prems(1)[OF _ c(1)] have
      "call_directory c = e \<and> call_level c = int32 (1 + level) \<and> call_segment c = segment @ right \<and>
       walked s1 (calls_of c) (output_of c) s2" by simp
    with True c(2) show ?thesis
      by (simp add: iteration_ok_def left_def right_def line_def it_def)
  qed
  have w2: "walked s (calls_of_iteration it) (output_of_iteration it) s2"
    using walked_trans[OF w1 conjunct2[OF head]] by (simp add: it_def)
  have md: "max_depth s2 = max_depth s"
    using w2 by (simp add: walked_def)
  consider (dead) "terminated s2"
    | (thrown) "\<not> terminated s2" "thrown"
    | (on) "\<not> terminated s2" "\<not> thrown"
    by blast
  then show ?case
  proof cases
    case dead
    then have res: "its = [it]" "s' = s2"
      using Cons.prems(2) eq by simp_all
    show ?thesis
      using head w2 dead by (simp add: res)
  next
    case thrown
    then have res: "its = [it]" "s' = s2\<lparr>terminated := True\<rparr>"
      using Cons.prems(2) eq by simp_all
    have "walked s (calls_of_iteration it @ []) (output_of_iteration it @ [])
            (s2\<lparr>terminated := True\<rparr>)"
      by (rule walked_trans[OF w2 walked_terminate])
    then show ?thesis
      using head by (simp add: res)
  next
    case on
    obtain its' s3 where tail:
      "traverse_entries rest failure nd nf (Suc cnt) level segment s2 = (its', s3)"
      by (cases "traverse_entries rest failure nd nf (Suc cnt) level segment s2") blast
    have res: "its = it # its'" "s' = s3"
      using Cons.prems(2) eq on tail by simp_all
    have IH: "list_all (iteration_ok (max_depth s2) (nd + nf) level segment) its' \<and>
         walked s2 (concat (map calls_of_iteration its'))
           (concat (map output_of_iteration its')) s3 \<and>
         (\<not> terminated s3 \<longrightarrow>
            map it_entry its' = rest \<and>
            map it_entries_count its' = [Suc (Suc cnt)..<Suc (Suc cnt) + length rest])"
      by (rule Cons.IH[OF _ tail]) (rule Cons.prems(1), simp_all)
    have w3: "walked s (calls_of_iteration it @ concat (map calls_of_iteration its'))
          (output_of_iteration it @ concat (map output_of_iteration its')) s3"
      by (rule walked_trans[OF w2 conjunct1[OF conjunct2[OF IH]]])
    have up: "[Suc cnt..<Suc cnt + length (e # rest)]
        = Suc cnt # [Suc (Suc cnt)..<Suc (Suc cnt) + length rest]"
      by (simp add: upt_rec)
    have fields: "it_entry it = e" "it_entries_count it = Suc cnt"
      by (simp_all add: it_def)
    have counts: "map it_entries_count (it # its') = [Suc cnt..<Suc cnt + length (e # rest)]"
      if "\<not> terminated s3"
    proof -
      have "map it_entries_count (it # its')
          = Suc cnt # [Suc (Suc cnt)..<Suc (Suc cnt) + length rest]"
        using IH that fields by (simp del: upt_Suc)
      then show ?thesis by (simp only: up)
    qed
    have entries: "map it_entry (it # its') = e # rest" if "\<not> terminated s3"
      using IH that fields by simp
    have "list_all (iteration_ok (max_depth s) (nd + nf) level segment) (it # its')"
      using head IH md by simp
    moreover have "walked s (concat (map calls_of_iteration (it # its')))
        (concat (map output_of_iteration (it # its'))) s3"
      using w3 by simp
    ultimately show ?thesis
      unfolding res using counts entries by blast
  qed
qed

lemma traverse_walked:
  "traverse d level segment s = (c, s') \<Longrightarrow>
     call_directory c = d \<and> call_level c = level \<and> call_segment c = segment \<and>
     walked s (calls_of c) (output_of c) s'"
proof (induction d arbitrary: level segment s c s' rule: entry_children_induct)
  case (children d)
  define nd where "nd = length (filter is_dir (children d))"
  define nf where "nf = length (filter (\<lambda>e. \<not> is_dir e) (children d))"
  define s1 where "s1 = s\<lparr>total_directories := total_directories s + nd,
                total_files := total_files s + nf, err := error_of (listing d)\<rparr>"
  consider (cut) "throws d Counting_directories \<or> terminated s \<or> throws d Counting_files"
    | (loop) "\<not> throws d Counting_directories" "\<not> terminated s" "\<not> throws d Counting_files"
    by blast
  then show ?case
  proof cases
    case cut
    then obtain m where c: "c = Call d level segment nd m []" and t: "terminated s'"
      and fr: "max_depth s' = max_depth s" "stderr s' = stderr s" "stdout s' = stdout s"
      using children.prems by (auto simp: traverse_eq nd_def split: if_splits)
    show ?thesis
      using t fr by (simp add: c walked_def call_sound_def)
  next
    case loop
    then obtain its where its:
      "traverse_entries (children d) (read_failure d Walking) nd nf 0 level segment s1 = (its, s')"
      and c: "c = Call d level segment nd nf its"
      using children.prems by (auto simp: traverse_eq nd_def nf_def s1_def split: prod.splits)
    have lp: "list_all (iteration_ok (max_depth s1) (nd + nf) level segment) its \<and>
         walked s1 (concat (map calls_of_iteration its)) (concat (map output_of_iteration its)) s' \<and>
         (\<not> terminated s' \<longrightarrow>
            map it_entry its = children d \<and>
            map it_entries_count its = [Suc 0..<Suc 0 + length (children d)])"
      by (rule traverse_entries_walked[OF _ its]) (use children.IH in blast)
    have sound: "call_sound (max_depth s) c"
      using lp by (simp add: call_sound_def c s1_def)
    have ok: "call_ok (max_depth s) c" if "\<not> terminated s'"
    proof -
      from lp that have m: "map it_entry its = children d"
        "map it_entries_count its = [Suc 0..<Suc 0 + length (children d)]"
        by simp_all
      then have "length its = length (children d)"
        by (metis length_map)
      with m lp show ?thesis
        by (simp add: call_ok_def c nd_def nf_def s1_def)
    qed
    show ?thesis
      using lp sound ok by (auto simp: c walked_def s1_def)
  qed
qed


section \<open>The entry point and the recursion levels\<close>

lemma int32_id: "- (2 ^ 31) \<le> x \<Longrightarrow> x < 2 ^ 31 \<Longrightarrow> int32 x = x"
  by (simp add: int32_def)

lemma int32_range: "- (2 ^ 31) \<le> int32 x \<and> int32 x < 2 ^ 31"
  by (simp add: int32_def)

lemma main_eq:
  "main lookup argv =
     (case status (lookup (root_path argv)) of
        Inl e \<Rightarrow>
          fatal message_no_such_directory [Str (root_path argv)]
            (initial_state\<lparr>err := (if is_not_found_error e then 0 else e)\<rparr>)
      | Inr b \<Rightarrow>
          if \<not> b then fatal message_not_a_directory [Str (root_path argv)] initial_state
          else (case traverse (lookup (root_path argv)) 1 []
                  (initial_state\<lparr>max_depth := depth_bound argv,
                     stdout := root_path argv @ NL\<rparr>) of
             (c, s) \<Rightarrow>
               if terminated s then \<lparr>ending = Aborted, final = s, walk = None\<rparr>
               else \<lparr>ending = Exited EXIT_SUCCESS, final = s\<lparr>stdout := stdout s @ summary s\<rparr>,
                     walk = Some c\<rparr>))"
  unfolding main_def Let_def root_path_def[symmetric]
  by (cases "status (lookup (root_path argv))")
    (simp_all add: fs_exists_def fs_is_directory_def set_err_def printf_def summary_def
      depth_bound_def NL_def initial_state_def split: prod.splits)

lemma call_ok_sound: "call_ok K x \<Longrightarrow> call_sound K x"
  unfolding call_ok_def call_sound_def by blast

lemma call_sound_iterations:
  "call_sound K x \<Longrightarrow> it \<in> set (call_iterations x) \<Longrightarrow>
     iteration_ok K (call_n_directories x + call_n_files x) (call_level x) (call_segment x) it"
  unfolding call_sound_def list_all_iff by blast

lemma call_ok_iterations:
  "call_ok K x \<Longrightarrow> it \<in> set (call_iterations x) \<Longrightarrow>
     iteration_ok K (call_n_directories x + call_n_files x) (call_level x) (call_segment x) it"
  unfolding call_ok_def list_all_iff by blast

lemma call_sound_levels:
  "list_all (call_sound K) (calls_of c) \<Longrightarrow> L \<le> call_level c \<Longrightarrow> call_level c \<le> K \<Longrightarrow>
     - (2 ^ 31) \<le> L \<Longrightarrow> K < 2 ^ 31 \<Longrightarrow> x \<in> set (calls_of c) \<Longrightarrow>
     L \<le> call_level x \<and> call_level x \<le> K"
  and iteration_ok_levels:
  "list_all (call_sound K) (calls_of_iteration it) \<Longrightarrow> iteration_ok K n level segment it \<Longrightarrow>
     L \<le> level \<Longrightarrow> level \<le> K \<Longrightarrow>
     - (2 ^ 31) \<le> L \<Longrightarrow> K < 2 ^ 31 \<Longrightarrow> x \<in> set (calls_of_iteration it) \<Longrightarrow>
     L \<le> call_level x \<and> call_level x \<le> K"
proof (induction c and it arbitrary: x and x n level segment
    rule: calls_of_calls_of_iteration.induct)
  case (1 d l sg nd nf its)
  show ?case
  proof (cases "x = Call d l sg nd nf its")
    case True
    with 1 show ?thesis by simp
  next
    case False
    with "1.prems" obtain it where it: "it \<in> set its" "x \<in> set (calls_of_iteration it)"
      by auto
    have ok: "iteration_ok K (nd + nf) l sg it"
      using call_sound_iterations[of K "Call d l sg nd nf its" it] "1.prems"(1) it(1) by simp
    have sub: "list_all (call_sound K) (calls_of_iteration it)"
      using "1.prems"(1) it(1) by (auto simp: list_all_iff)
    show ?thesis
      using "1.IH"[OF it(1) sub ok _ _ "1.prems"(4,5) it(2)] "1.prems"(2,3) by simp
  qed
next
  case (2 e m lf ln r)
  show ?case
  proof (cases r)
    case None
    with 2 show ?thesis by simp
  next
    case (Some y)
    have rec: "level \<noteq> K" "call_level y = int32 (1 + level)"
      using "2.prems"(2) Some by (simp_all add: iteration_ok_def recurses_def)
    then have lv: "call_level y = 1 + level"
      using "2.prems"(3-6) by (simp add: int32_id)
    show ?thesis
      using "2.IH"[OF Some, of x] "2.prems" Some lv rec(1) by simp
  qed
qed

lemma list_all_call_ok_sound: "list_all (call_ok K) cs \<Longrightarrow> list_all (call_sound K) cs"
  by (simp add: list_all_iff call_ok_sound)

lemma call_ok_levels:
  "list_all (call_ok K) (calls_of c) \<Longrightarrow> L \<le> call_level c \<Longrightarrow> call_level c \<le> K \<Longrightarrow>
     - (2 ^ 31) \<le> L \<Longrightarrow> K < 2 ^ 31 \<Longrightarrow> x \<in> set (calls_of c) \<Longrightarrow>
     L \<le> call_level x \<and> call_level x \<le> K"
  by (rule call_sound_levels[OF list_all_call_ok_sound])

lemma depth_bound_range: "1 \<le> depth_bound argv \<and> depth_bound argv < 2 ^ 31"
  using int32_range[of "strtol10 (argv ! 2)"] by (simp add: depth_bound_def atoi_def)

lemma fatal_walk: "walk (fatal format args s) = None"
  by (simp add: fatal_def Let_def)

lemma main_walk:
  assumes "walk (main lookup argv) = Some c"
  shows "status (lookup (root_path argv)) = Inr True"
    and "\<exists>s'. traverse (lookup (root_path argv)) 1 []
            (initial_state\<lparr>max_depth := depth_bound argv, stdout := root_path argv @ NL\<rparr>) = (c, s')
          \<and> \<not> terminated s'
          \<and> main lookup argv =
              \<lparr>ending = Exited EXIT_SUCCESS, final = s'\<lparr>stdout := stdout s' @ summary s'\<rparr>,
               walk = Some c\<rparr>"
  using assms
  by (auto simp: main_eq fatal_walk split: sum.splits if_splits prod.splits)

lemma main_walked:
  assumes "walk (main lookup argv) = Some c"
  shows "call_directory c = lookup (root_path argv)"
    and "call_level c = 1"
    and "call_segment c = []"
    and "list_all (call_ok (depth_bound argv)) (calls_of c)"
    and "max_depth (final (main lookup argv)) = depth_bound argv"
    and "total_directories (final (main lookup argv)) = sum_list (map call_n_directories (calls_of c))"
    and "total_files (final (main lookup argv)) = sum_list (map call_n_files (calls_of c))"
    and "stdout (final (main lookup argv))
           = root_path argv @ NL @ output_of c @ summary (final (main lookup argv))"
    and "stderr (final (main lookup argv)) = []"
proof -
  obtain s' where t: "traverse (lookup (root_path argv)) 1 []
            (initial_state\<lparr>max_depth := depth_bound argv, stdout := root_path argv @ NL\<rparr>) = (c, s')"
    and n: "\<not> terminated s'"
    and m: "main lookup argv =
              \<lparr>ending = Exited EXIT_SUCCESS, final = s'\<lparr>stdout := stdout s' @ summary s'\<rparr>,
               walk = Some c\<rparr>"
    using main_walk(2)[OF assms] by blast
  note w = traverse_walked[OF t]
  show "call_directory c = lookup (root_path argv)" "call_level c = 1" "call_segment c = []"
    using w by simp_all
  show "list_all (call_ok (depth_bound argv)) (calls_of c)"
    using w n by (simp add: walked_def)
  show "max_depth (final (main lookup argv)) = depth_bound argv"
    using w by (simp add: walked_def m)
  show "total_directories (final (main lookup argv)) = sum_list (map call_n_directories (calls_of c))"
    using w n by (simp add: walked_def m initial_state_def)
  show "total_files (final (main lookup argv)) = sum_list (map call_n_files (calls_of c))"
    using w n by (simp add: walked_def m initial_state_def)
  show "stdout (final (main lookup argv))
           = root_path argv @ NL @ output_of c @ summary (final (main lookup argv))"
    using w by (simp add: walked_def m summary_def)
  show "stderr (final (main lookup argv)) = []"
    using w by (simp add: walked_def m initial_state_def)
qed

lemma call_ok_counts:
  "call_ok K x \<Longrightarrow>
     call_n_directories x = fst (number_of_directories_in_directory (call_directory x) t) \<and>
     call_n_files x = fst (number_of_files_in_directory (call_directory x) t')"
  by (simp add: call_ok_def number_of_directories_eq number_of_files_eq)

lemma sum_list_cong_ok:
  "list_all P xs \<Longrightarrow> (\<And>x. P x \<Longrightarrow> f x = g x) \<Longrightarrow> sum_list (map f xs) = sum_list (map g xs)"
  by (induction xs) simp_all

lemma recurses_iff:
  "recurses e level K =
     (status e = Inr True \<and> symlink_status e \<noteq> Inr True \<and> listing e \<noteq> Inl EACCES \<and> level \<noteq> K)"
  by (cases "listing e")
    (auto simp: recurses_def is_dir_def is_link_def denied_def probed_error_def error_of_def
      EACCES_def)

lemma iteration_ok_call:
  "iteration_ok K n level segment it \<Longrightarrow>
     (it_call it \<noteq> None) = recurses (it_entry it) level K \<and>
     (\<forall>y. it_call it = Some y \<longrightarrow>
        call_directory y = it_entry it \<and> call_level y = int32 (1 + level))"
  by (auto simp: iteration_ok_def split: option.splits)

lemma main_levels:
  assumes "walk (main lookup argv) = Some c" and "x \<in> set (calls_of c)"
  shows "1 \<le> call_level x \<and> call_level x \<le> depth_bound argv"
  using call_ok_levels[OF main_walked(4)[OF assms(1)], of 1 x] main_walked(2)[OF assms(1)]
    depth_bound_range[of argv] assms(2)
  by simp

lemma main_call_ok:
  assumes "walk (main lookup argv) = Some c" and "x \<in> set (calls_of c)"
  shows "call_ok (depth_bound argv) x"
  using main_walked(4)[OF assms(1)] assms(2) by (simp add: list_all_iff)

lemma calls_below_not_symlinks:
  "list_all (call_sound K) (calls_of c) \<Longrightarrow> y \<in> set (tl (calls_of c)) \<Longrightarrow>
     \<not> is_link (call_directory y)"
  and iteration_calls_not_symlinks:
  "list_all (call_sound K) (calls_of_iteration it) \<Longrightarrow> iteration_ok K n level segment it \<Longrightarrow>
     y \<in> set (calls_of_iteration it) \<Longrightarrow> \<not> is_link (call_directory y)"
proof (induction c and it arbitrary: y and y n level segment
    rule: calls_of_calls_of_iteration.induct)
  case (1 d l sg nd nf its)
  from "1.prems"(2) obtain it where it: "it \<in> set its" "y \<in> set (calls_of_iteration it)"
    by auto
  have ok: "iteration_ok K (nd + nf) l sg it"
    using call_sound_iterations[of K "Call d l sg nd nf its" it] "1.prems"(1) it(1) by simp
  have sub: "list_all (call_sound K) (calls_of_iteration it)"
    using "1.prems"(1) it(1) by (auto simp: list_all_iff)
  show ?case
    by (rule "1.IH"[OF it(1) sub ok it(2)])
next
  case (2 e m lf ln r)
  show ?case
  proof (cases r)
    case None
    with 2 show ?thesis by simp
  next
    case (Some c)
    have rec: "recurses e level K" "call_directory c = e"
      using "2.prems"(2) Some by (simp_all add: iteration_ok_def)
    have ys: "y \<in> set (calls_of c)"
      using "2.prems"(3) Some by simp
    have ok: "list_all (call_sound K) (calls_of c)"
      using "2.prems"(1) Some by simp
    show ?thesis
    proof (cases "y = c")
      case True
      with rec show ?thesis by (simp add: recurses_def)
    next
      case False
      then have "y \<in> set (tl (calls_of c))"
        using ys by (cases c) auto
      then show ?thesis
        by (rule "2.IH"[OF Some ok])
    qed
  qed
qed



lemma entry_line_denied:
  "status e = Inr True \<Longrightarrow> symlink_status e \<noteq> Inr True \<Longrightarrow> listing e = Inl EACCES \<Longrightarrow>
     level \<noteq> K \<Longrightarrow>
     entry_line e level K segment left =
       segment @ left @ '' '' @ ESC @ ''[94m'' @ filename e @ ESC @ ''[0m [access denied]'' @ NL"
  by (simp add: entry_line_def is_dir_def is_link_def denied_def probed_error_def error_of_def
      format_access_denied_def ESC_def NL_def)

lemma entry_line_symlink_directory:
  "status e = Inr True \<Longrightarrow> symlink_status e = Inr True \<Longrightarrow>
     entry_line e level K segment left =
       segment @ left @ '' '' @ ESC @ ''[94m'' @ filename e @ ESC @ ''[0m -> '' @ ESC @ ''[92m''
         @ (case canonical_path_of e of Inl x \<Rightarrow> [] | Inr p \<Rightarrow> p) @ ESC @ ''[0m'' @ NL"
  by (simp add: entry_line_def is_dir_def is_link_def format_symlink_directory_def ESC_def
      NL_def)







lemma digits_value_no_digit: "(\<forall>c\<in>set s. \<not> isdigit c) \<Longrightarrow> digits_value acc s = acc"
  by (cases s) simp_all

lemma atoi_no_digit:
  assumes "\<forall>c\<in>set a. \<not> isdigit c"
  shows "atoi a = 0"
proof -
  have t: "\<forall>c\<in>set (dropWhile isspace a). \<not> isdigit c"
    using assms by (meson set_dropWhileD)
  have "strtol10 a = 0"
  proof (cases "dropWhile isspace a")
    case Nil
    show ?thesis unfolding strtol10_def Let_def Nil by simp
  next
    case (Cons c cs)
    with t have "\<forall>c\<in>set cs. \<not> isdigit c" "\<not> isdigit c" by simp_all
    then show ?thesis
      unfolding strtol10_def Let_def Cons by (simp add: digits_value_no_digit)
  qed
  then show ?thesis by (simp add: atoi_def int32_def)
qed

lemma main_max_depth:
  "max_depth (final (main lookup argv))
     = (if status (lookup (root_path argv)) = Inr True then depth_bound argv else 1)"
proof (cases "status (lookup (root_path argv))")
  case (Inl e)
  then show ?thesis
    by (simp add: main_eq fatal_def Let_def initial_state_def)
next
  case (Inr b)
  show ?thesis
  proof (cases b)
    case False
    with Inr show ?thesis
      by (simp add: main_eq fatal_def Let_def initial_state_def)
  next
    case True
    obtain c s' where t: "traverse (lookup (root_path argv)) 1 []
        (initial_state\<lparr>max_depth := depth_bound argv, stdout := root_path argv @ NL\<rparr>) = (c, s')"
      by (cases "traverse (lookup (root_path argv)) 1 []
        (initial_state\<lparr>max_depth := depth_bound argv, stdout := root_path argv @ NL\<rparr>)") blast
    from traverse_walked[OF t] have "max_depth s' = depth_bound argv"
      by (simp add: walked_def)
    then show ?thesis
      using Inr True t by (simp add: main_eq)
  qed
qed

lemma fatal_no_such_directory:
  "fatal message_no_such_directory [Str path] s =
     \<lparr>ending = Exited EXIT_FAILURE,
      final = s\<lparr>stderr := stderr s @ ''cxx-tree: cannot access '' @ [CHR 0x27] @ path
                  @ [CHR 0x27] @ '': No such directory'' @ NL\<rparr>,
      walk = None\<rparr>"
  by (simp add: fatal_def message_no_such_directory_def NL_def)

lemma fatal_not_a_directory:
  "fatal message_not_a_directory [Str path] s =
     \<lparr>ending = Exited EXIT_FAILURE,
      final = s\<lparr>stderr := stderr s @ ''cxx-tree: '' @ path @ '': Not a directory'' @ NL\<rparr>,
      walk = None\<rparr>"
  by (simp add: fatal_def message_not_a_directory_def NL_def)

section \<open>A walk over listings that read to their end returns\<close>

lemma traverse_entries_returns:
  assumes sub: "\<And>e level segment s c s'. e \<in> set es \<Longrightarrow> \<not> terminated s \<Longrightarrow>
       traverse e level segment s = (c, s') \<Longrightarrow> \<not> terminated s'"
    and run: "traverse_entries es None nd nf cnt level segment s = (its, s')"
    and live: "\<not> terminated s"
  shows "\<not> terminated s'"
  using sub run live
proof (induction es arbitrary: cnt s its s')
  case Nil
  then show ?case by simp
next
  case (Cons e rest)
  define left where "left = (if Suc cnt = nd + nf then glyph_last else glyph_middle)"
  define right where "right = (if Suc cnt = nd + nf then continuation_last else continuation_middle)"
  define line where "line = entry_line e level (max_depth s) segment left"
  define s1 where "s1 = s\<lparr>err := probed_error e, stdout := stdout s @ line\<rparr>"
  obtain r s2 where step: "(if recurses e level (max_depth s)
               then (case traverse e (int32 (1 + level)) (segment @ right) s1 of
                       (c, s2) \<Rightarrow> (Some c, s2))
               else (None, s1)) = (r, s2)"
    by (cases "(if recurses e level (max_depth s)
               then (case traverse e (int32 (1 + level)) (segment @ right) s1 of
                       (c, s2) \<Rightarrow> (Some c, s2))
               else (None, s1))") blast
  have live1: "\<not> terminated s1"
    using Cons.prems(3) by (simp add: s1_def)
  have live2: "\<not> terminated s2"
  proof (cases "recurses e level (max_depth s)")
    case False
    with step live1 show ?thesis by simp
  next
    case True
    then obtain c where "traverse e (int32 (1 + level)) (segment @ right) s1 = (c, s2)"
      using step by (auto split: prod.splits)
    from Cons.prems(1)[OF _ live1 this] show ?thesis by simp
  qed
  obtain its' s3 where tail:
    "traverse_entries rest None nd nf (Suc cnt) level segment s2 = (its', s3)"
    by (cases "traverse_entries rest None nd nf (Suc cnt) level segment s2") blast
  have "s' = s3"
    using Cons.prems(2) step tail live2
    unfolding left_def right_def line_def s1_def
    by (simp add: traverse_entries_eq Let_def)
  moreover have "\<not> terminated s3"
    by (rule Cons.IH[OF _ tail live2]) (rule Cons.prems(1), simp_all)
  ultimately show ?case by simp
qed

lemma traverse_returns:
  "reads_to_end d \<Longrightarrow> \<not> terminated s \<Longrightarrow> traverse d level segment s = (c, s') \<Longrightarrow>
     \<not> terminated s'"
proof (induction d arbitrary: level segment s c s' rule: entry_children_induct)
  case (children d)
  from children.prems(1) have rf: "read_failure d Counting_directories = None"
    "read_failure d Counting_files = None" "read_failure d Walking = None"
    and below: "list_all reads_to_end (children d)"
    by (simp_all add: reads_to_end.simps[of d])
  define s1 where "s1 = s\<lparr>total_directories :=
          total_directories s + length (filter is_dir (children d)),
        total_files := total_files s + length (filter (\<lambda>e. \<not> is_dir e) (children d)),
        err := error_of (listing d)\<rparr>"
  obtain its where its: "traverse_entries (children d) None
      (length (filter is_dir (children d))) (length (filter (\<lambda>e. \<not> is_dir e) (children d)))
      0 level segment s1 = (its, s')"
    using children.prems(2,3) rf
    by (auto simp: traverse_eq throws_def s1_def split: prod.splits)
  have live: "\<not> terminated s1"
    using children.prems(2) by (simp add: s1_def)
  show ?case
  proof (rule traverse_entries_returns[OF _ its live])
    fix e level segment s c s'
    assume "e \<in> set (children d)" "\<not> terminated s" "traverse e level segment s = (c, s')"
    moreover from this(1) below have "reads_to_end e"
      by (simp add: list_all_iff)
    ultimately show "\<not> terminated s'"
      using children.IH by blast
  qed
qed

lemma main_ending:
  "ending (main lookup argv) =
     (if status (lookup (root_path argv)) \<noteq> Inr True then Exited EXIT_FAILURE
      else if terminated (final (main lookup argv)) then Aborted else Exited EXIT_SUCCESS)"
  by (auto simp: main_eq fatal_def Let_def split: sum.splits prod.splits)

lemma main_reads_to_end:
  assumes "status (lookup (root_path argv)) = Inr True"
    and "reads_to_end (lookup (root_path argv))"
  shows "\<exists>c. walk (main lookup argv) = Some c"
proof -
  obtain c s' where t: "traverse (lookup (root_path argv)) 1 []
        (initial_state\<lparr>max_depth := depth_bound argv, stdout := root_path argv @ NL\<rparr>) = (c, s')"
    by (cases "traverse (lookup (root_path argv)) 1 []
        (initial_state\<lparr>max_depth := depth_bound argv, stdout := root_path argv @ NL\<rparr>)") blast
  have "\<not> terminated s'"
    by (rule traverse_returns[OF assms(2) _ t]) (simp add: initial_state_def)
  then show ?thesis
    using assms(1) t by (simp add: main_eq)
qed

lemma main_terminated:
  "terminated (final (main lookup argv)) = (ending (main lookup argv) = Aborted)"
  by (auto simp: main_eq fatal_def Let_def initial_state_def split: sum.splits prod.splits)

text \<open>
  How a run of \<^verbatim>\<open>main\<close> ends. It exits with \<open>EXIT_FAILURE\<close> exactly when the root fails
  validation, after the one message on the error stream and before any output. Otherwise,
  when every listing of the subtree reads to its end, it exits with \<open>EXIT_SUCCESS\<close> after
  the whole walk and the summary, whatever the probes below the root answered through
  the error code. A run is aborted only below a root that passed validation, in a
  subtree where some listing fails to read.
\<close>

lemma main_ends:
  "(ending (main lookup argv) = Exited EXIT_FAILURE)
     = (status (lookup (root_path argv)) \<noteq> Inr True)
   \<and> (ending (main lookup argv) = Exited EXIT_FAILURE \<longrightarrow>
        stdout (final (main lookup argv)) = []
        \<and> walk (main lookup argv) = None
        \<and> stderr (final (main lookup argv))
            = (case status (lookup (root_path argv)) of
                 Inl e \<Rightarrow> ''cxx-tree: cannot access '' @ [CHR 0x27] @ root_path argv
                           @ [CHR 0x27] @ '': No such directory'' @ NL
               | Inr b \<Rightarrow> ''cxx-tree: '' @ root_path argv @ '': Not a directory'' @ NL))
   \<and> (status (lookup (root_path argv)) = Inr True \<longrightarrow>
        reads_to_end (lookup (root_path argv)) \<longrightarrow>
        ending (main lookup argv) = Exited EXIT_SUCCESS)
   \<and> (ending (main lookup argv) = Exited EXIT_SUCCESS \<longrightarrow>
        stderr (final (main lookup argv)) = []
        \<and> (\<exists>c. walk (main lookup argv) = Some c
              \<and> stdout (final (main lookup argv))
                  = root_path argv @ NL @ output_of c @ summary (final (main lookup argv))))
   \<and> (ending (main lookup argv) = Aborted \<longrightarrow>
        status (lookup (root_path argv)) = Inr True
        \<and> \<not> reads_to_end (lookup (root_path argv))
        \<and> walk (main lookup argv) = None
        \<and> stderr (final (main lookup argv)) = [])
   \<and> EXIT_SUCCESS = 0 \<and> EXIT_FAILURE \<noteq> 0"
proof (cases "status (lookup (root_path argv))")
  case (Inl e)
  then show ?thesis
    by (simp add: main_eq fatal_no_such_directory EXIT_SUCCESS_def EXIT_FAILURE_def
        initial_state_def)
next
  case (Inr b)
  show ?thesis
  proof (cases b)
    case False
    with Inr show ?thesis
      by (simp add: main_eq fatal_not_a_directory EXIT_SUCCESS_def EXIT_FAILURE_def
          initial_state_def)
  next
    case True
    obtain c s' where t: "traverse (lookup (root_path argv)) 1 []
        (initial_state\<lparr>max_depth := depth_bound argv, stdout := root_path argv @ NL\<rparr>) = (c, s')"
      by (cases "traverse (lookup (root_path argv)) 1 []
        (initial_state\<lparr>max_depth := depth_bound argv, stdout := root_path argv @ NL\<rparr>)") blast
    have st: "status (lookup (root_path argv)) = Inr True"
      using Inr True by simp
    have err: "stderr s' = []"
      using traverse_walked[OF t] by (simp add: walked_def initial_state_def)
    show ?thesis
    proof (cases "terminated s'")
      case dead: True
      then have m: "main lookup argv = \<lparr>ending = Aborted, final = s', walk = None\<rparr>"
        using st t by (simp add: main_eq)
      have "\<not> reads_to_end (lookup (root_path argv))"
        using traverse_returns[OF _ _ t] dead by (auto simp: initial_state_def)
      then show ?thesis
        using st err by (simp add: m EXIT_SUCCESS_def EXIT_FAILURE_def)
    next
      case False
      then have w: "walk (main lookup argv) = Some c"
        and e: "ending (main lookup argv) = Exited EXIT_SUCCESS"
        using st t by (simp_all add: main_eq)
      show ?thesis
        using st w e main_walked(8,9)[OF w]
        by (simp add: EXIT_SUCCESS_def EXIT_FAILURE_def)
    qed
  qed
qed

section \<open>Evaluating the sample run\<close>

lemmas example_defs =
  example_root_def example_sub_def example_inner_def example_lnk_def example_secret_def
  plain_file_def plain_directory_def denied_directory_def directory_symlink_def
  denied_directory_symlink_def missing_def

lemmas example_call_defs =
  example_call_def example_sub_call_def example_it_a_def example_it_sub_def
  example_it_lnk_def example_it_secret_def example_it_deep_def example_it_inner_def

lemmas walk_eval =
  traverse_eq traverse_entries_eq traverse_entries.simps(1) children_def is_dir_def
  is_link_def denied_def probed_error_def error_of_def recurses_def entry_line_def
  format_symlink_directory_def format_symlink_file_def format_access_denied_def
  format_directory_def format_file_def glyph_last_def glyph_middle_def
  continuation_last_def continuation_middle_def ESC_def NL_def Let_def int32_def
  EACCES_def ENOTDIR_def ENOENT_def throws_def counted_error_def no_failure_def

lemma example_depth: "depth_bound example_argv = 2"
  by (simp add: depth_bound_def example_argv_def atoi_def strtol10_def isspace_def isdigit_def
      int32_def)

lemma example_root_path: "root_path example_argv = ''.''"
  by (simp add: root_path_def example_argv_def)

lemma example_traverse:
  "fst (traverse example_root 1 [] (initial_state\<lparr>max_depth := 2, stdout := ''.'' @ NL\<rparr>))
     = example_call
   \<and> \<not> terminated (snd (traverse example_root 1 []
                           (initial_state\<lparr>max_depth := 2, stdout := ''.'' @ NL\<rparr>)))"
  by (simp add: walk_eval example_defs example_call_defs initial_state_def)

lemma example_walk: "walk (main example_lookup example_argv) = Some example_call"
  using example_traverse
  by (simp add: main_eq example_depth example_root_path example_lookup_def
      example_root_def[unfolded plain_directory_def, THEN arg_cong[of _ _ status]]
      case_prod_beta)

lemma example_calls: "calls_of example_call = [example_call, example_sub_call]"
  by (simp add: example_call_defs)


lemma example_vault_walk: "walk (main vault_lookup example_argv) = Some vault_call"
proof -
  have "fst (traverse vault_root 1 [] (initial_state\<lparr>max_depth := 2, stdout := ''.'' @ NL\<rparr>))
     = vault_call
    \<and> \<not> terminated (snd (traverse vault_root 1 []
                           (initial_state\<lparr>max_depth := 2, stdout := ''.'' @ NL\<rparr>)))"
    by (simp add: walk_eval vault_root_def vault_call_def vault_it_def example_vault_def
        plain_directory_def denied_directory_symlink_def initial_state_def)
  then show ?thesis
    by (simp add: main_eq example_depth example_root_path vault_lookup_def
      vault_root_def[unfolded plain_directory_def, THEN arg_cong[of _ _ status]]
      case_prod_beta)
qed

lemmas faulty_defs =
  faulty_root_def faulty_sub_def failing_def EIO_def plain_file_def plain_directory_def
  no_failure_def

lemma faulty_status: "status (faulty_lookup p (root_path example_argv)) = Inr True"
  by (simp add: faulty_lookup_def example_root_path faulty_root_def plain_directory_def)

lemma faulty_traverse:
  "snd (traverse (faulty_root p) 1 [] (initial_state\<lparr>max_depth := 2, stdout := ''.'' @ NL\<rparr>))
     = initial_state\<lparr>max_depth := 2, total_directories := 1,
         total_files := (case p of Walking \<Rightarrow> 2 | _ \<Rightarrow> 1), err := 0,
         stdout := ''.'' @ NL @ glyph_middle @ '' '' @ ESC @ ''[94msub'' @ ESC @ ''[0m'' @ NL
           @ (case p of Walking \<Rightarrow> continuation_middle @ glyph_last @ '' deep.txt'' @ NL
              | _ \<Rightarrow> []),
         terminated := True\<rparr>"
  by (cases p) (simp_all add: walk_eval faulty_defs initial_state_def)

lemma faulty_final:
  "final (main (faulty_lookup p) example_argv)
     = snd (traverse (faulty_root p) 1 [] (initial_state\<lparr>max_depth := 2, stdout := ''.'' @ NL\<rparr>))
   \<and> ending (main (faulty_lookup p) example_argv) = Aborted
   \<and> walk (main (faulty_lookup p) example_argv) = None"
proof -
  have "terminated (snd (traverse (faulty_root p) 1 []
          (initial_state\<lparr>max_depth := 2, stdout := ''.'' @ NL\<rparr>)))"
    by (subst faulty_traverse) simp
  then show ?thesis
    using faulty_status[of p]
    by (simp add: main_eq example_depth example_root_path faulty_lookup_def case_prod_beta)
qed

lemma faulty_run:
  "ending (main (faulty_lookup p) example_argv) = Aborted
   \<and> walk (main (faulty_lookup p) example_argv) = None"
  by (simp add: faulty_final)

lemma faulty_stdout:
  "stdout (final (main (faulty_lookup p) example_argv))
     = ''.'' @ NL @ glyph_middle @ '' '' @ ESC @ ''[94msub'' @ ESC @ ''[0m'' @ NL
           @ (case p of Walking \<Rightarrow> continuation_middle @ glyph_last @ '' deep.txt'' @ NL
              | _ \<Rightarrow> [])"
  by (simp only: faulty_final faulty_traverse) simp

section \<open>Aggregator: the totals are the sums over the visited directories\<close>

text \<open>
  Claim C1. After a run that reaches the traversal, \<open>total_directories\<close> and
  \<open>total_files\<close> are the sums, over the recorded calls of \<open>traverse\<close> (the root first, then
  every directory recursed into), of the directory count and the file count of the
  directory each call was made on. Within any call that returns, the two counts are added
  first: the loop over the children starts from a state that holds the augmented totals
  and the output written so far, unchanged.
\<close>

theorem totals_sum_over_visited_directories:
  assumes "walk (main lookup argv) = Some c"
  shows "total_directories (final (main lookup argv))
           = (\<Sum>x\<leftarrow>calls_of c. fst (number_of_directories_in_directory (call_directory x) t))
       \<and> total_files (final (main lookup argv))
           = (\<Sum>x\<leftarrow>calls_of c. fst (number_of_files_in_directory (call_directory x) t))
       \<and> call_directory (hd (calls_of c)) = lookup (root_path argv)
       \<and> (\<not> terminated (snd (traverse d level segment s)) \<longrightarrow>
           (\<exists>s1. stdout s1 = stdout s
            \<and> total_directories s1
                = total_directories s + fst (number_of_directories_in_directory d s)
            \<and> total_files s1 = total_files s + fst (number_of_files_in_directory d s)
            \<and> traverse d level segment s
                = (case traverse_entries (fst (fs_directory_iterator d s))
                          (read_failure d Walking)
                          (fst (number_of_directories_in_directory d s))
                          (fst (number_of_files_in_directory d s)) 0 level segment s1 of
                     (iterations, s') \<Rightarrow>
                       (Call d level segment (fst (number_of_directories_in_directory d s))
                          (fst (number_of_files_in_directory d s)) iterations, s'))))"
proof -
  note w = main_walked[OF assms]
  have d: "sum_list (map call_n_directories (calls_of c))
      = (\<Sum>x\<leftarrow>calls_of c. fst (number_of_directories_in_directory (call_directory x) t))"
    by (rule sum_list_cong_ok[OF w(4)]) (simp add: call_ok_counts)
  have f: "sum_list (map call_n_files (calls_of c))
      = (\<Sum>x\<leftarrow>calls_of c. fst (number_of_files_in_directory (call_directory x) t))"
    by (rule sum_list_cong_ok[OF w(4)]) (simp add: call_ok_counts)
  have h: "call_directory (hd (calls_of c)) = lookup (root_path argv)"
    using w(1) by (cases c) simp
  let ?s1 = "s\<lparr>total_directories := total_directories s + length (filter is_dir (children d)),
                total_files := total_files s + length (filter (\<lambda>e. \<not> is_dir e) (children d)),
                err := error_of (listing d)\<rparr>"
  let ?before = "\<lambda>s1. stdout s1 = stdout s
            \<and> total_directories s1
                = total_directories s + fst (number_of_directories_in_directory d s)
            \<and> total_files s1 = total_files s + fst (number_of_files_in_directory d s)
            \<and> traverse d level segment s
                = (case traverse_entries (fst (fs_directory_iterator d s))
                          (read_failure d Walking)
                          (fst (number_of_directories_in_directory d s))
                          (fst (number_of_files_in_directory d s)) 0 level segment s1 of
                     (iterations, s') \<Rightarrow>
                       (Call d level segment (fst (number_of_directories_in_directory d s))
                          (fst (number_of_files_in_directory d s)) iterations, s'))"
  have o: "\<exists>s1. ?before s1" if live: "\<not> terminated (snd (traverse d level segment s))"
  proof -
    have cut: "\<not> throws d Counting_directories" "\<not> terminated s"
      "\<not> throws d Counting_files"
      using live by (auto simp: traverse_eq[of d level segment s] split: if_splits)
    have "?before ?s1"
      using cut
      by (simp add: number_of_directories_eq number_of_files_eq fs_directory_iterator_eq
          traverse_eq[of d level segment s])
    then show ?thesis ..
  qed
  have "total_directories (final (main lookup argv))
           = (\<Sum>x\<leftarrow>calls_of c. fst (number_of_directories_in_directory (call_directory x) t))"
    using w(6) d by simp
  moreover have "total_files (final (main lookup argv))
           = (\<Sum>x\<leftarrow>calls_of c. fst (number_of_files_in_directory (call_directory x) t))"
    using w(7) f by simp
  ultimately show ?thesis
    using h o by (intro conjI impI)
qed

text \<open>On the sample tree with depth bound 2 the root and \<open>sub\<close> are visited: 3 + 1 directories, 1 + 1 files.\<close>

theorem totals_sum_over_visited_directories_witness:
  "walk (main example_lookup example_argv) = Some example_call
   \<and> \<not> terminated (snd (traverse example_root 1 []
                           (initial_state\<lparr>max_depth := 2, stdout := ''.'' @ NL\<rparr>)))
   \<and> total_directories (final (main example_lookup example_argv))
       = (\<Sum>x\<leftarrow>calls_of example_call.
            fst (number_of_directories_in_directory (call_directory x) initial_state))
   \<and> total_directories (final (main example_lookup example_argv)) = 4
   \<and> total_files (final (main example_lookup example_argv)) = 2"
proof -
  note inst = totals_sum_over_visited_directories[where t = initial_state
      and s = "initial_state\<lparr>max_depth := 2, stdout := ''.'' @ NL\<rparr>"
      and d = example_root and level = 1 and segment = "[]", OF example_walk]
  have d: "(\<Sum>x\<leftarrow>calls_of example_call.
            fst (number_of_directories_in_directory (call_directory x) initial_state)) = 4"
    by (simp add: example_calls example_call_defs number_of_directories_eq children_def
        is_dir_def example_defs)
  have f: "(\<Sum>x\<leftarrow>calls_of example_call.
            fst (number_of_files_in_directory (call_directory x) initial_state)) = 2"
    by (simp add: example_calls example_call_defs number_of_files_eq children_def
        is_dir_def example_defs)
  from inst have "total_directories (final (main example_lookup example_argv))
       = (\<Sum>x\<leftarrow>calls_of example_call.
            fst (number_of_directories_in_directory (call_directory x) initial_state))"
    and "total_files (final (main example_lookup example_argv))
       = (\<Sum>x\<leftarrow>calls_of example_call.
            fst (number_of_files_in_directory (call_directory x) initial_state))"
    by blast+
  then show ?thesis
    using example_walk example_traverse d f by simp
qed

section \<open>Walker: when the recursion is made\<close>

text \<open>
  Claim C2. In a run of \<open>main\<close>, for every iteration of the loop of every recorded call, a
  recursive call was made exactly when the entry is a directory, is not a symlink, its
  dry-run listing did not fail with \<open>EACCES\<close>, and the level of the call is strictly below
  the depth bound. Every call has a level of at most the bound, a call at the bound makes
  no recursion, every listed entry has its iteration (and so its line), and a recursion is
  on the entry itself, one level down. Between the root line and the summary the standard
  output holds the lines of the recorded iterations and nothing else.
\<close>

theorem recursion_exactly_when_guard_holds:
  assumes "walk (main lookup argv) = Some c"
    and "x \<in> set (calls_of c)"
    and "it \<in> set (call_iterations x)"
  shows "((it_call it \<noteq> None) =
            (status (it_entry it) = Inr True \<and> symlink_status (it_entry it) \<noteq> Inr True \<and>
             listing (it_entry it) \<noteq> Inl EACCES \<and>
             call_level x < max_depth (final (main lookup argv))))
       \<and> call_level x \<le> max_depth (final (main lookup argv))
       \<and> (call_level x = max_depth (final (main lookup argv)) \<longrightarrow> it_call it = None)
       \<and> map it_entry (call_iterations x) = fst (fs_directory_iterator (call_directory x) t)
       \<and> (\<forall>y. it_call it = Some y \<longrightarrow>
             call_directory y = it_entry it \<and> call_level y = call_level x + 1)
       \<and> stdout (final (main lookup argv))
           = root_path argv @ NL @ output_of c @ summary (final (main lookup argv))"
proof -
  let ?K = "depth_bound argv"
  have K: "max_depth (final (main lookup argv)) = ?K"
    by (rule main_walked(5)[OF assms(1)])
  have lv: "1 \<le> call_level x" "call_level x \<le> ?K"
    using main_levels[OF assms(1,2)] by simp_all
  have ok: "call_ok ?K x"
    by (rule main_call_ok[OF assms(1,2)])
  note it = iteration_ok_call[OF call_ok_iterations[OF ok assms(3)]]
  have ne: "(call_level x \<noteq> ?K) = (call_level x < ?K)"
    using lv by auto
  have i32: "int32 (1 + call_level x) = call_level x + 1" if "call_level x < ?K"
    using that lv depth_bound_range[of argv] by (simp add: int32_id)
  have a: "(it_call it \<noteq> None) =
            (status (it_entry it) = Inr True \<and> symlink_status (it_entry it) \<noteq> Inr True \<and>
             listing (it_entry it) \<noteq> Inl EACCES \<and> call_level x < ?K)"
    using it ne by (simp add: recurses_iff)
  have b: "call_level x = ?K \<longrightarrow> it_call it = None"
    using a by auto
  have c: "map it_entry (call_iterations x) = fst (fs_directory_iterator (call_directory x) t)"
    using ok by (simp add: call_ok_def fs_directory_iterator_eq)
  have d: "\<forall>y. it_call it = Some y \<longrightarrow>
             call_directory y = it_entry it \<and> call_level y = call_level x + 1"
    using it a i32 by auto
  show ?thesis
    unfolding K using a lv(2) b c d main_walked(8)[OF assms(1)] by (intro conjI)
qed

theorem recursion_exactly_when_guard_holds_witness:
  "walk (main example_lookup example_argv) = Some example_call
   \<and> example_call \<in> set (calls_of example_call)
   \<and> example_it_sub \<in> set (call_iterations example_call)
   \<and> it_call example_it_sub = Some example_sub_call
   \<and> status (it_entry example_it_sub) = Inr True
   \<and> symlink_status (it_entry example_it_sub) \<noteq> Inr True
   \<and> listing (it_entry example_it_sub) \<noteq> Inl EACCES
   \<and> call_level example_call < max_depth (final (main example_lookup example_argv))
   \<and> call_level example_sub_call = call_level example_call + 1
   \<and> example_sub_call \<in> set (calls_of example_call)
   \<and> example_it_inner \<in> set (call_iterations example_sub_call)
   \<and> status (it_entry example_it_inner) = Inr True
   \<and> call_level example_sub_call = max_depth (final (main example_lookup example_argv))
   \<and> it_call example_it_inner = None"
proof -
  have x: "example_call \<in> set (calls_of example_call)"
    "example_sub_call \<in> set (calls_of example_call)"
    by (simp_all add: example_calls)
  have i: "example_it_sub \<in> set (call_iterations example_call)"
    "example_it_inner \<in> set (call_iterations example_sub_call)"
    by (simp_all add: example_call_def example_sub_call_def)
  have r: "it_call example_it_sub = Some example_sub_call"
    by (simp add: example_it_sub_def)
  have d: "status (it_entry example_it_inner) = Inr True"
    by (simp add: example_it_inner_def example_inner_def plain_directory_def)
  have k: "call_level example_sub_call = max_depth (final (main example_lookup example_argv))"
    using main_walked(5)[OF example_walk] by (simp add: example_depth example_sub_call_def)
  note top = recursion_exactly_when_guard_holds[OF example_walk x(1) i(1), of initial_state]
  note sub = recursion_exactly_when_guard_holds[OF example_walk x(2) i(2), of initial_state]
  from top r have "status (it_entry example_it_sub) = Inr True
      \<and> symlink_status (it_entry example_it_sub) \<noteq> Inr True
      \<and> listing (it_entry example_it_sub) \<noteq> Inl EACCES
      \<and> call_level example_call < max_depth (final (main example_lookup example_argv))
      \<and> call_level example_sub_call = call_level example_call + 1"
    by simp
  moreover from sub k have "it_call example_it_inner = None"
    by blast
  ultimately show ?thesis
    using example_walk x i r d k by (intro conjI) blast+
qed

section \<open>Walker: a directory that denies access\<close>

text \<open>
  Claim C3, as stated, fails in two places. First, the counts of a directory are computed
  and added when \<open>traverse\<close> is entered on it, and \<open>traverse\<close> is not entered on a directory
  whose dry-run listing failed: in the sample run the entry \<open>secret\<close> is met by the loop, yet
  no recorded call is on it, so no counts of its own were computed or added. Second, the
  dry run is made for every entry that resolves to a directory, symlinks included, and a
  symlink is always printed with the symlink format: the symlink \<open>vault\<close>, whose target
  denies access, is met at level 1 under bound 2 and its line carries no marker.
\<close>

theorem denied_directory_is_not_counted_itself:
  "walk (main example_lookup example_argv) = Some example_call
   \<and> example_it_secret \<in> set (call_iterations example_call)
   \<and> status (it_entry example_it_secret) = Inr True
   \<and> listing (it_entry example_it_secret) = Inl EACCES
   \<and> it_entry example_it_secret \<notin> set (map call_directory (calls_of example_call))
   \<and> walk (main vault_lookup example_argv) = Some vault_call
   \<and> call_level vault_call \<noteq> max_depth (final (main vault_lookup example_argv))
   \<and> call_iterations vault_call = [vault_it]
   \<and> status (it_entry vault_it) = Inr True
   \<and> listing (it_entry vault_it) = Inl EACCES
   \<and> it_line vault_it
       = glyph_last @ '' '' @ ESC @ ''[94mvault'' @ ESC @ ''[0m -> '' @ ESC @ ''[92m/r/vault''
           @ ESC @ ''[0m'' @ NL"
proof -
  have "max_depth (final (main vault_lookup example_argv)) = 2"
    using main_walked(5)[OF example_vault_walk] by (simp add: example_depth)
  then show ?thesis
    using example_walk example_vault_walk
    by (simp add: example_calls example_call_defs example_defs vault_call_def vault_it_def
        example_vault_def)
qed

text \<open>
  Claim C3, amended. In a run of \<open>main\<close>, an entry that resolves to a directory and whose
  dry-run listing fails with \<open>EACCES\<close> is printed, when it is not a symlink and the level of
  the call is not the depth bound, as the directory line followed by the marker
  \<open>[access denied]\<close>; when it is a symlink its line is the symlink line, name, arrow and
  resolved target. Symlink or not, no recursive call is made on it, so nothing below it is
  visited. Counts of its own would both be 0, as its listing yields no entry. It is
  itself counted in the directory count of the call that met it, which is the Counter's
  result for that call's directory and is therefore at least 1.
\<close>

theorem denied_directory_marked_and_not_entered:
  assumes "walk (main lookup argv) = Some c"
    and "x \<in> set (calls_of c)"
    and "it \<in> set (call_iterations x)"
    and "status (it_entry it) = Inr True"
    and "listing (it_entry it) = Inl EACCES"
  shows "(symlink_status (it_entry it) \<noteq> Inr True \<longrightarrow>
          call_level x \<noteq> max_depth (final (main lookup argv)) \<longrightarrow>
            it_line it = call_segment x @ it_left it @ '' '' @ ESC @ ''[94m''
              @ filename (it_entry it) @ ESC @ ''[0m [access denied]'' @ NL)
       \<and> (symlink_status (it_entry it) = Inr True \<longrightarrow>
            it_line it = call_segment x @ it_left it @ '' '' @ ESC @ ''[94m''
              @ filename (it_entry it) @ ESC @ ''[0m -> '' @ ESC @ ''[92m''
              @ (case canonical_path_of (it_entry it) of Inl e \<Rightarrow> [] | Inr p \<Rightarrow> p)
              @ ESC @ ''[0m'' @ NL)
       \<and> it_call it = None
       \<and> calls_of_iteration it = []
       \<and> fst (number_of_directories_in_directory (it_entry it) t) = 0
       \<and> fst (number_of_files_in_directory (it_entry it) t) = 0
       \<and> call_n_directories x = fst (number_of_directories_in_directory (call_directory x) t)
       \<and> 1 \<le> call_n_directories x"
proof -
  let ?K = "depth_bound argv"
  have K: "max_depth (final (main lookup argv)) = ?K"
    by (rule main_walked(5)[OF assms(1)])
  have ok: "call_ok ?K x"
    by (rule main_call_ok[OF assms(1,2)])
  note iok = call_ok_iterations[OF ok assms(3)]
  have line: "it_line it = call_segment x @ it_left it @ '' '' @ ESC @ ''[94m''
              @ filename (it_entry it) @ ESC @ ''[0m [access denied]'' @ NL"
    if "symlink_status (it_entry it) \<noteq> Inr True" "call_level x \<noteq> ?K"
    using iok entry_line_denied[OF assms(4) that(1) assms(5) that(2)]
    by (simp add: iteration_ok_def)
  have link: "it_line it = call_segment x @ it_left it @ '' '' @ ESC @ ''[94m''
              @ filename (it_entry it) @ ESC @ ''[0m -> '' @ ESC @ ''[92m''
              @ (case canonical_path_of (it_entry it) of Inl e \<Rightarrow> [] | Inr p \<Rightarrow> p)
              @ ESC @ ''[0m'' @ NL"
    if "symlink_status (it_entry it) = Inr True"
    using iok entry_line_symlink_directory[OF assms(4) that]
    by (simp add: iteration_ok_def)
  have none: "it_call it = None"
    using iteration_ok_call[OF iok] assms(5) by (simp add: recurses_iff)
  then have nocalls: "calls_of_iteration it = []"
    by (cases it) simp
  have ch: "children (it_entry it) = []"
    using assms(5) by (simp add: children_def)
  have zero: "fst (number_of_directories_in_directory (it_entry it) t) = 0"
    "fst (number_of_files_in_directory (it_entry it) t) = 0"
    by (simp_all add: number_of_directories_eq number_of_files_eq ch)
  have "it_entry it \<in> set (children (call_directory x))"
    using ok assms(3) unfolding call_ok_def by (metis image_eqI set_map)
  then have "filter is_dir (children (call_directory x)) \<noteq> []"
    using assms(4) by (auto simp: filter_empty_conv is_dir_def)
  then have one: "1 \<le> call_n_directories x"
    using ok unfolding call_ok_def by (cases "filter is_dir (children (call_directory x))") simp_all
  show ?thesis
    unfolding K using line link none nocalls zero call_ok_counts[OF ok, of t t] one
    by (intro conjI) blast+
qed

theorem denied_directory_marked_and_not_entered_witness:
  "walk (main example_lookup example_argv) = Some example_call
   \<and> example_call \<in> set (calls_of example_call)
   \<and> example_it_secret \<in> set (call_iterations example_call)
   \<and> status (it_entry example_it_secret) = Inr True
   \<and> listing (it_entry example_it_secret) = Inl EACCES
   \<and> symlink_status (it_entry example_it_secret) \<noteq> Inr True
   \<and> call_level example_call \<noteq> max_depth (final (main example_lookup example_argv))
   \<and> it_line example_it_secret
       = call_segment example_call @ it_left example_it_secret @ '' '' @ ESC @ ''[94m''
           @ filename (it_entry example_it_secret) @ ESC @ ''[0m [access denied]'' @ NL
   \<and> it_call example_it_secret = None
   \<and> call_n_directories example_call = 3
   \<and> walk (main vault_lookup example_argv) = Some vault_call
   \<and> vault_call \<in> set (calls_of vault_call)
   \<and> vault_it \<in> set (call_iterations vault_call)
   \<and> status (it_entry vault_it) = Inr True
   \<and> listing (it_entry vault_it) = Inl EACCES
   \<and> symlink_status (it_entry vault_it) = Inr True
   \<and> it_line vault_it
       = call_segment vault_call @ it_left vault_it @ '' '' @ ESC @ ''[94m''
           @ filename (it_entry vault_it) @ ESC @ ''[0m -> '' @ ESC @ ''[92m''
           @ ''/r/vault'' @ ESC @ ''[0m'' @ NL
   \<and> it_call vault_it = None"
proof -
  have x: "example_call \<in> set (calls_of example_call)"
    by (simp add: example_calls)
  have i: "example_it_secret \<in> set (call_iterations example_call)"
    by (simp add: example_call_def)
  have e: "status (it_entry example_it_secret) = Inr True"
    "listing (it_entry example_it_secret) = Inl EACCES"
    "symlink_status (it_entry example_it_secret) \<noteq> Inr True"
    by (simp_all add: example_it_secret_def example_secret_def denied_directory_def)
  have k: "call_level example_call \<noteq> max_depth (final (main example_lookup example_argv))"
    using main_walked(5)[OF example_walk] by (simp add: example_depth example_call_def)
  have n: "call_n_directories example_call = 3"
    by (simp add: example_call_def)
  note inst = denied_directory_marked_and_not_entered[OF example_walk x i e(1,2),
      of initial_state]
  from inst e(3) k have line: "it_line example_it_secret
       = call_segment example_call @ it_left example_it_secret @ '' '' @ ESC @ ''[94m''
           @ filename (it_entry example_it_secret) @ ESC @ ''[0m [access denied]'' @ NL"
    by blast
  from inst have none: "it_call example_it_secret = None"
    by blast
  have vx: "vault_call \<in> set (calls_of vault_call)"
    by (simp add: vault_call_def vault_it_def)
  have vi: "vault_it \<in> set (call_iterations vault_call)"
    by (simp add: vault_call_def)
  have ve: "status (it_entry vault_it) = Inr True"
    "listing (it_entry vault_it) = Inl EACCES"
    "symlink_status (it_entry vault_it) = Inr True"
    "canonical_path_of (it_entry vault_it) = Inr ''/r/vault''"
    by (simp_all add: vault_it_def example_vault_def denied_directory_symlink_def)
  note vinst = denied_directory_marked_and_not_entered[OF example_vault_walk vx vi ve(1,2),
      of initial_state]
  from vinst ve(3,4) have vline: "it_line vault_it
       = call_segment vault_call @ it_left vault_it @ '' '' @ ESC @ ''[94m''
           @ filename (it_entry vault_it) @ ESC @ ''[0m -> '' @ ESC @ ''[92m''
           @ ''/r/vault'' @ ESC @ ''[0m'' @ NL"
    by simp
  from vinst have vnone: "it_call vault_it = None"
    by blast
  show ?thesis
    using example_walk x i e k line none n example_vault_walk vx vi ve(1,2,3) vline vnone
    by (intro conjI)
qed

section \<open>Walker: the branch glyph of the last child\<close>




section \<open>Walker: symlinks are leaves\<close>

text \<open>
  Claim C5. In any call of \<open>traverse\<close>, at any level and under any depth bound, an
  iteration whose entry is a symlink makes no recursive call, whatever its target is; and
  no call recorded below the first one is on a symlink.
\<close>

theorem symlinks_are_never_traversed:
  assumes "traverse directory level segment s = (c, s')"
    and "x \<in> set (calls_of c)"
    and "it \<in> set (call_iterations x)"
    and "symlink_status (it_entry it) = Inr True"
  shows "it_call it = None
       \<and> (\<forall>y\<in>set (tl (calls_of c)). symlink_status (call_directory y) \<noteq> Inr True)"
proof -
  have ok: "list_all (call_sound (max_depth s)) (calls_of c)"
    using traverse_walked[OF assms(1)] by (simp add: walked_def)
  then have "call_sound (max_depth s) x"
    using assms(2) by (simp add: list_all_iff)
  from iteration_ok_call[OF call_sound_iterations[OF this assms(3)]] assms(4)
  have "it_call it = None"
    by (simp add: recurses_iff)
  moreover have "\<forall>y\<in>set (tl (calls_of c)). symlink_status (call_directory y) \<noteq> Inr True"
    using calls_below_not_symlinks[OF ok] by (auto simp: is_link_def)
  ultimately show ?thesis by simp
qed

text \<open>On the sample tree \<open>lnk\<close> is a symlink to a directory, met at level 1 under bound 2.\<close>

theorem symlinks_are_never_traversed_witness:
  "example_call \<in> set (calls_of example_call)
   \<and> example_it_lnk \<in> set (call_iterations example_call)
   \<and> symlink_status (it_entry example_it_lnk) = Inr True
   \<and> status (it_entry example_it_lnk) = Inr True
   \<and> it_call example_it_lnk = None
   \<and> tl (calls_of example_call) = [example_sub_call]
   \<and> symlink_status (call_directory example_sub_call) \<noteq> Inr True"
proof -
  have t: "traverse example_root 1 [] (initial_state\<lparr>max_depth := 2, stdout := ''.'' @ NL\<rparr>)
      = (example_call,
         snd (traverse example_root 1 [] (initial_state\<lparr>max_depth := 2, stdout := ''.'' @ NL\<rparr>)))"
    using example_traverse by (simp add: prod_eq_iff)
  have x: "example_call \<in> set (calls_of example_call)"
    by (simp add: example_calls)
  have i: "example_it_lnk \<in> set (call_iterations example_call)"
    by (simp add: example_call_def)
  have l: "symlink_status (it_entry example_it_lnk) = Inr True"
    "status (it_entry example_it_lnk) = Inr True"
    by (simp_all add: example_it_lnk_def example_lnk_def directory_symlink_def)
  show ?thesis
    using symlinks_are_never_traversed[OF t x i l(1)] x i l
    by (simp add: example_calls)
qed

section \<open>Counter: the two counts partition the entries\<close>

text \<open>
  Claim C6. For any directory, the count of directory children plus the count of file
  children is the number of entries its listing yields, and the two counting predicates
  give opposite answers on every path, whatever the error code held before: each entry
  falls in exactly one of the two classes.
\<close>

theorem counts_partition_children:
  "fst (number_of_directories_in_directory directory s)
     + fst (number_of_files_in_directory directory s')
   = length (fst (fs_directory_iterator directory s''))
   \<and> fst (fs_is_directory path t)
     \<noteq> fst (case fs_is_directory path t' of (b, u) \<Rightarrow> (\<not> b, u))"
proof -
  have "length (filter is_dir es) + length (filter (\<lambda>e. \<not> is_dir e) es) = length es" for es
    by (induction es) simp_all
  then show ?thesis
    by (simp add: number_of_directories_eq number_of_files_eq fs_directory_iterator_eq
        fs_is_directory_eq)
qed

section \<open>Entry point: the depth bound\<close>

text \<open>
  Claim C7. The depth bound \<open>max_depth\<close> a run ends with is at least 1. It is 1 when fewer
  than three argument strings are given (no second argument). With a second argument and a
  root that passes validation it is \<open>atoi\<close> of that argument, replaced by 1 when below 1.
  \<open>atoi\<close> of a string without any digit is 0, so such an argument gives the bound 1.
\<close>

theorem depth_bound_defaults_and_clamps:
  "1 \<le> max_depth (final (main lookup argv))
   \<and> (length argv < 3 \<longrightarrow> max_depth (final (main lookup argv)) = 1)
   \<and> (3 \<le> length argv \<longrightarrow> status (lookup (root_path argv)) = Inr True \<longrightarrow>
        max_depth (final (main lookup argv))
          = (if atoi (argv ! 2) < 1 then 1 else atoi (argv ! 2)))
   \<and> ((\<forall>ch\<in>set a. \<not> isdigit ch) \<longrightarrow> atoi a = 0)"
  using depth_bound_range[of argv] atoi_no_digit[of a]
  by (auto simp: main_max_depth depth_bound_def)

theorem depth_bound_defaults_and_clamps_witness:
  "max_depth (final (main example_lookup [''cxx-tree'', ''.''])) = 1
   \<and> max_depth (final (main example_lookup [''cxx-tree'', ''.'', ''-4''])) = 1
   \<and> max_depth (final (main example_lookup [''cxx-tree'', ''.'', ''deep''])) = 1
   \<and> max_depth (final (main example_lookup [''cxx-tree'', ''.'', ''3''])) = 3
   \<and> atoi ''deep'' = 0"
proof -
  have r: "root_path [''cxx-tree'', ''.''] = ''.''" "root_path [''cxx-tree'', ''.'', x] = ''.''" for x
    by (simp_all add: root_path_def)
  have st: "status (example_lookup ''.'') = Inr True"
    by (simp add: example_lookup_def example_root_def plain_directory_def)
  have nd: "\<forall>ch\<in>set ''deep''. \<not> isdigit ch"
    by (simp add: isdigit_def)
  have a: "atoi ''-4'' = -4" "atoi ''3'' = 3"
    by (simp_all add: atoi_def strtol10_def isspace_def isdigit_def int32_def)
  have d: "atoi ''deep'' = 0"
    using depth_bound_defaults_and_clamps[of example_lookup "[]" "''deep''"] nd by blast
  have "max_depth (final (main example_lookup [''cxx-tree'', ''.''])) = 1"
    using depth_bound_defaults_and_clamps[of example_lookup "[''cxx-tree'', ''.'']" "[]"]
    by simp
  moreover have "max_depth (final (main example_lookup [''cxx-tree'', ''.'', ''-4''])) = 1"
    using depth_bound_defaults_and_clamps[of example_lookup "[''cxx-tree'', ''.'', ''-4'']" "[]"]
      r st a by simp
  moreover have "max_depth (final (main example_lookup [''cxx-tree'', ''.'', ''deep''])) = 1"
    using depth_bound_defaults_and_clamps[of example_lookup "[''cxx-tree'', ''.'', ''deep'']" "[]"]
      r st d by simp
  moreover have "max_depth (final (main example_lookup [''cxx-tree'', ''.'', ''3''])) = 3"
    using depth_bound_defaults_and_clamps[of example_lookup "[''cxx-tree'', ''.'', ''3'']" "[]"]
      r st a by simp
  ultimately show ?thesis
    using d by simp
qed

section \<open>Entry point: how a run ends\<close>

text \<open>
  Claim C8 says that no failure met during the traversal ends it. The code follows that
  in every probe: the walker and the two counters are declared \<^verbatim>\<open>noexcept\<close> and hand
  \<^verbatim>\<open>err\<close> to each call of the library, the constructor of the directory iterator included.
  The three loops, however, advance their iterator with the throwing \<^verbatim>\<open>operator++\<close>, so a
  read of a listing that fails after an entry was delivered is not absorbed: the exception
  meets \<^verbatim>\<open>noexcept\<close> and the run ends in \<^verbatim>\<open>std::terminate\<close>. In the tree below the root
  passes validation and lists \<open>sub\<close> and \<open>z.txt\<close>; \<open>sub\<close> answers every probe, delivers
  \<open>deep.txt\<close>, and then the read fails with \<open>EIO\<close>, in the first count, the second count or
  the loop of the walker. Each of the three runs ends aborted, by no exit at all, after the
  lines handed to the standard output so far: the line of \<open>z.txt\<close> and the summary are never
  reached.
\<close>

theorem read_failure_aborts_the_traversal:
  "status (faulty_lookup Counting_directories (root_path example_argv)) = Inr True
   \<and> status (faulty_sub Counting_directories) = Inr True
   \<and> listing (faulty_sub Counting_directories) = Inr [plain_file ''deep.txt'']
   \<and> read_failure (faulty_sub Counting_directories) Counting_directories = Some EIO
   \<and> ending (main (faulty_lookup Counting_directories) example_argv) = Aborted
   \<and> stdout (final (main (faulty_lookup Counting_directories) example_argv))
       = ''.'' @ NL @ glyph_middle @ '' '' @ ESC @ ''[94msub'' @ ESC @ ''[0m'' @ NL
   \<and> read_failure (faulty_sub Counting_files) Counting_files = Some EIO
   \<and> ending (main (faulty_lookup Counting_files) example_argv) = Aborted
   \<and> stdout (final (main (faulty_lookup Counting_files) example_argv))
       = ''.'' @ NL @ glyph_middle @ '' '' @ ESC @ ''[94msub'' @ ESC @ ''[0m'' @ NL
   \<and> read_failure (faulty_sub Walking) Walking = Some EIO
   \<and> ending (main (faulty_lookup Walking) example_argv) = Aborted
   \<and> stdout (final (main (faulty_lookup Walking) example_argv))
       = ''.'' @ NL @ glyph_middle @ '' '' @ ESC @ ''[94msub'' @ ESC @ ''[0m'' @ NL
           @ continuation_middle @ glyph_last @ '' deep.txt'' @ NL
   \<and> Aborted \<noteq> Exited EXIT_SUCCESS"
proof -
  have sub: "status (faulty_sub p) = Inr True"
    "listing (faulty_sub p) = Inr [plain_file ''deep.txt'']"
    "read_failure (faulty_sub p) p = Some EIO" for p
    by (simp_all add: faulty_sub_def failing_def)
  show ?thesis
    by (simp add: faulty_status faulty_run faulty_stdout sub)
qed

section \<open>The run as a function of root, depth and subtree\<close>

text \<open>
  Claim C9. Two runs given the same root path, the same depth bound and the same subtree
  at the root (entries, probe answers, listing order and reads) are equal: same bytes on the
  standard output, and same error stream, ending and totals. Neither the program
  name, nor arguments after the depth, nor what the file system holds outside the root
  has any influence.
\<close>

theorem run_is_determined_by_root_depth_and_subtree:
  assumes "root_path argv = root_path argv'"
    and "depth_bound argv = depth_bound argv'"
    and "lookup (root_path argv) = lookup' (root_path argv')"
  shows "stdout (final (main lookup argv)) = stdout (final (main lookup' argv'))
       \<and> main lookup argv = main lookup' argv'"
proof -
  have l: "lookup' (root_path argv) = lookup (root_path argv)"
    using assms(1,3) by simp
  have "main lookup argv = main lookup' argv'"
    by (simp only: main_eq assms(1)[symmetric] assms(2)[symmetric] l)
  then show ?thesis by simp
qed

theorem run_is_determined_by_root_depth_and_subtree_witness:
  "root_path example_argv = root_path example_argv_other
   \<and> depth_bound example_argv = depth_bound example_argv_other
   \<and> example_lookup (root_path example_argv) = example_lookup_other (root_path example_argv_other)
   \<and> example_lookup ''x'' \<noteq> example_lookup_other ''x''
   \<and> example_argv \<noteq> example_argv_other
   \<and> stdout (final (main example_lookup example_argv))
       = stdout (final (main example_lookup_other example_argv_other))"
proof -
  have r: "root_path example_argv = root_path example_argv_other"
    by (simp add: root_path_def example_argv_def example_argv_other_def)
  have d: "depth_bound example_argv = depth_bound example_argv_other"
    by (simp add: depth_bound_def example_argv_def example_argv_other_def)
  have l: "example_lookup (root_path example_argv)
             = example_lookup_other (root_path example_argv_other)"
    by (simp add: root_path_def example_argv_def example_argv_other_def example_lookup_def
        example_lookup_other_def)
  have n: "example_lookup ''x'' \<noteq> example_lookup_other ''x''"
    "example_argv \<noteq> example_argv_other"
    by (simp_all add: example_lookup_def example_lookup_other_def missing_def plain_file_def
        example_argv_def example_argv_other_def)
  show ?thesis
    using run_is_determined_by_root_depth_and_subtree[where lookup = example_lookup
        and lookup' = example_lookup_other, OF r d l] r d l n by simp
qed

section \<open>Walker: the level never passes the depth bound\<close>

text \<open>
  Claim C10. Every call of \<open>traverse\<close> in a run of \<open>main\<close> has a level between 1 and
  \<open>max_depth\<close>, which is at least 1 and fits 32 bits; there the guard
  \<open>level \<noteq> max_depth\<close> is the comparison \<open>level < max_depth\<close>, and each recursive call
  is made at exactly one level more, without wrap-around, still within the bound.
\<close>

theorem levels_stay_within_depth_bound:
  assumes "walk (main lookup argv) = Some c"
    and "x \<in> set (calls_of c)"
  shows "1 \<le> call_level x
       \<and> call_level x \<le> max_depth (final (main lookup argv))
       \<and> 1 \<le> max_depth (final (main lookup argv))
       \<and> max_depth (final (main lookup argv)) < 2 ^ 31
       \<and> ((call_level x \<noteq> max_depth (final (main lookup argv)))
            = (call_level x < max_depth (final (main lookup argv))))
       \<and> (\<forall>it\<in>set (call_iterations x). \<forall>y. it_call it = Some y \<longrightarrow>
             call_level y = 1 + call_level x
             \<and> call_level y \<le> max_depth (final (main lookup argv)))"
proof -
  let ?K = "depth_bound argv"
  have K: "max_depth (final (main lookup argv)) = ?K"
    by (rule main_walked(5)[OF assms(1)])
  have lv: "1 \<le> call_level x" "call_level x \<le> ?K"
    using main_levels[OF assms] by simp_all
  have ok: "call_ok ?K x"
    by (rule main_call_ok[OF assms])
  have "call_level y = 1 + call_level x \<and> call_level y \<le> ?K"
    if "it \<in> set (call_iterations x)" "it_call it = Some y" for it y
  proof -
    note it = iteration_ok_call[OF call_ok_iterations[OF ok that(1)]]
    then have "call_level x \<noteq> ?K" "call_level y = int32 (1 + call_level x)"
      using that(2) by (auto simp: recurses_def)
    then show ?thesis
      using lv depth_bound_range[of argv] by (simp add: int32_id)
  qed
  then have sub: "\<forall>it\<in>set (call_iterations x). \<forall>y. it_call it = Some y \<longrightarrow>
             call_level y = 1 + call_level x \<and> call_level y \<le> ?K"
    by blast
  have ne: "(call_level x \<noteq> ?K) = (call_level x < ?K)"
    using lv by auto
  have rg: "1 \<le> ?K" "?K < 2 ^ 31"
    using depth_bound_range[of argv] by simp_all
  show ?thesis
    unfolding K using lv rg ne sub by (intro conjI)
qed

theorem levels_stay_within_depth_bound_witness:
  "walk (main example_lookup example_argv) = Some example_call
   \<and> example_sub_call \<in> set (calls_of example_call)
   \<and> 1 \<le> call_level example_sub_call
   \<and> call_level example_sub_call \<le> max_depth (final (main example_lookup example_argv))
   \<and> call_level example_sub_call = 2
   \<and> example_call \<in> set (calls_of example_call)
   \<and> example_it_sub \<in> set (call_iterations example_call)
   \<and> it_call example_it_sub = Some example_sub_call
   \<and> call_level example_sub_call = 1 + call_level example_call"
proof -
  have x: "example_sub_call \<in> set (calls_of example_call)"
    "example_call \<in> set (calls_of example_call)"
    by (simp_all add: example_calls)
  have l: "call_level example_sub_call = 2"
    by (simp add: example_sub_call_def)
  have i: "example_it_sub \<in> set (call_iterations example_call)"
    "it_call example_it_sub = Some example_sub_call"
    by (simp_all add: example_call_def example_it_sub_def)
  have "1 \<le> call_level example_sub_call
       \<and> call_level example_sub_call \<le> max_depth (final (main example_lookup example_argv))"
    using levels_stay_within_depth_bound[OF example_walk x(1)] by blast
  moreover have "call_level example_sub_call = 1 + call_level example_call"
    using levels_stay_within_depth_bound[OF example_walk x(2)] i by blast
  ultimately show ?thesis
    using example_walk x l i by (intro conjI) blast+
qed

end
